theory Spec2Isabelle
  imports Main "HOL-Library.Word" "HOL-Library.Sublist"
begin

unbundle bit_operations_syntax

section \<open>Strings of the JavaScript runtime\<close>

text \<open>
  A JavaScript string is a sequence of 16-bit code units; \<open>charCodeAt\<close> reads one of
  them as a number between 0 and 65535. \<open>js\<close> turns an ASCII literal into such a
  sequence.
\<close>

type_synonym jsstring = "16 word list"

definition js :: "string \<Rightarrow> jsstring" where
  "js s = map of_char s"

definition hyphen :: "16 word" where "hyphen = 45"
definition space :: "16 word" where "space = 32"
definition slash :: "16 word" where "slash = 47"
definition comma :: "16 word" where "comma = 44"

text \<open>
  The class \<open>\s\<close> of a regular expression and the characters removed by
  \<open>String.prototype.trim\<close> are the same set: WhiteSpace and LineTerminator of
  ECMAScript. The dot of a regular expression matches everything but a line terminator.
\<close>

definition isWhiteSpace :: "16 word \<Rightarrow> bool" where
  "isWhiteSpace c \<longleftrightarrow>
     c \<in> {9, 10, 11, 12, 13, 32, 160, 5760, 8232, 8233, 8239, 8287, 12288, 65279}
     \<or> (8192 \<le> c \<and> c \<le> 8202)"

definition isLineTerminator :: "16 word \<Rightarrow> bool" where
  "isLineTerminator c \<longleftrightarrow> c \<in> {10, 13, 8232, 8233}"

definition trim :: "jsstring \<Rightarrow> jsstring" where
  "trim s = rev (dropWhile isWhiteSpace (rev (dropWhile isWhiteSpace s)))"

text \<open>
  \<open>str.split(sep)\<close> for a separator of one code unit: the pieces between the
  occurrences of the separator, empty pieces included, so the result is never empty.
  \<open>splitWhere\<close> cuts at every element that satisfies a predicate.
\<close>

fun splitWhere :: "('a \<Rightarrow> bool) \<Rightarrow> 'a list \<Rightarrow> 'a list list" where
  "splitWhere P [] = [[]]"
| "splitWhere P (x # xs) =
     (if P x then [] # splitWhere P xs
      else (case splitWhere P xs of
              [] \<Rightarrow> [[x]]
            | piece # pieces \<Rightarrow> (x # piece) # pieces))"

definition split :: "'a \<Rightarrow> 'a list \<Rightarrow> 'a list list" where
  "split sep s = splitWhere (\<lambda>c. c = sep) s"

fun join :: "'a list \<Rightarrow> 'a list list \<Rightarrow> 'a list" where
  "join sep [] = []"
| "join sep [x] = x"
| "join sep (x # y # ys) = x @ sep @ join sep (y # ys)"

text \<open>\<open>str.includes(word)\<close>: the word occurs as a contiguous part of the string.\<close>

fun str_includes :: "'a list \<Rightarrow> 'a list \<Rightarrow> bool" where
  "str_includes [] word = (word = [])"
| "str_includes (c # cs) word = (prefix word (c # cs) \<or> str_includes cs word)"

section \<open>The cache key: \<open>hash\<close>\<close>

text \<open>
  \<^verbatim>\<open>
  const hash = (str) => {
      let hash = 0
      for (let i = 0; i < str.length; i++) {
          let char = str.charCodeAt(i)
          hash = (hash << 5) - hash + char
          hash = hash & hash // Convert to 32bit integer
      }
      return hash
  }
  \<close>
  JavaScript numbers are doubles; \<open><<\<close> and \<open>&\<close> first convert their operands with
  ToInt32 and give a 32-bit signed result, while \<open>-\<close> and \<open>+\<close> are exact here (all
  values stay far below \<open>2 ^ 53\<close>). The numbers are modelled as \<open>int\<close> with ToInt32
  written out.
\<close>

definition toInt32 :: "int \<Rightarrow> int" where
  "toInt32 x = (x + 2 ^ 31) mod 2 ^ 32 - 2 ^ 31"

definition shiftLeft :: "int \<Rightarrow> nat \<Rightarrow> int" where
  "shiftLeft x n = toInt32 (toInt32 x * 2 ^ n)"

definition bitAnd :: "int \<Rightarrow> int \<Rightarrow> int" where
  "bitAnd x y = toInt32 (toInt32 x AND toInt32 y)"

definition charCode :: "16 word \<Rightarrow> int" where
  "charCode c = uint c"

definition hash_body :: "int \<Rightarrow> 16 word \<Rightarrow> int" where
  "hash_body h c = (let h1 = shiftLeft h 5 - h + charCode c in bitAnd h1 h1)"

definition hash :: "jsstring \<Rightarrow> int" where
  "hash str = foldl hash_body 0 str"

text \<open>
  The scheme the specification names: \<open>hash * 31 + charCode\<close>, truncated to a 32-bit
  signed integer after every character.
\<close>

definition rolling31 :: "jsstring \<Rightarrow> int" where
  "rolling31 str = foldl (\<lambda>h c. toInt32 (h * 31 + charCode c)) 0 str"

section \<open>Name variations of the per-name search\<close>

text \<open>
  \<^verbatim>\<open>
  function getNameVariations(fullName) {
      const names = fullName.split(' ');
      if(names.length===1)    return [fullName];
      return [
          names[names.length - 1], // Last name
          names.slice(-2).join(' '), // Last two names
          names[0] + ' ' + names[names.length - 1], // First and last name
          names[0], // First and last name
          fullName // Full name
      ];
  }
  \<close>
  \<open>split\<close> never returns an empty array, so both indices are in range.
\<close>

definition getNameVariations :: "jsstring \<Rightarrow> jsstring list" where
  "getNameVariations fullName =
     (let names = split space fullName in
      if length names = 1 then [fullName]
      else [names ! (length names - 1),
            join [space] (drop (length names - 2) names),
            names ! 0 @ [space] @ names ! (length names - 1),
            names ! 0,
            fullName])"

section \<open>The date of a summary: \<open>getDate\<close>\<close>

text \<open>
  \<^verbatim>\<open>
  const getDate = (dateString) => {
      const firstLine = /.*(?=-)/
      const dateRx = new RegExp(firstLine)
      const clean = dateString.replace(/\s{2,}/g, '')
      const dateMatch = dateRx.exec(clean)
      const date = dateMatch ? dateMatch[0].trim() : ''
      return date
  }
  \<close>
  \<open>replace(/\s{2,}/g, rep)\<close> scans from the left and replaces every maximal run of two
  or more white-space characters by \<open>rep\<close>; a single white-space character stays.
  \<open>replaceRuns\<close> carries the run read so far. The variant of the file under
  \<open>sites/\<close> uses \<open>/\s{2,}|,/g\<close>, which deletes every comma as well.
\<close>

definition flushRun :: "jsstring \<Rightarrow> jsstring \<Rightarrow> jsstring" where
  "flushRun rep run = (if 2 \<le> length run then rep else run)"

fun replaceRuns :: "bool \<Rightarrow> jsstring \<Rightarrow> jsstring \<Rightarrow> jsstring \<Rightarrow> jsstring" where
  "replaceRuns commas rep run [] = flushRun rep run"
| "replaceRuns commas rep run (c # cs) =
     (if isWhiteSpace c then replaceRuns commas rep (run @ [c]) cs
      else if commas \<and> c = comma then flushRun rep run @ rep @ replaceRuns commas rep [] cs
      else flushRun rep run @ c # replaceRuns commas rep [] cs)"

text \<open>
  \<open>/.*(?=-)/.exec(s)\<close>: the match is tried at the start positions 0, 1, ... in turn.
  At one position the greedy \<open>.*\<close> first takes every character up to the next line
  terminator and then gives characters back one at a time until the lookahead sees a
  hyphen; \<open>backtrack s j\<close> tries the lengths \<open>j\<close>, \<open>j - 1\<close>, ..., 0.
\<close>

definition lookaheadHyphen :: "jsstring \<Rightarrow> nat \<Rightarrow> bool" where
  "lookaheadHyphen s j \<longleftrightarrow> j < length s \<and> s ! j = hyphen"

fun backtrack :: "jsstring \<Rightarrow> nat \<Rightarrow> jsstring option" where
  "backtrack s 0 = (if lookaheadHyphen s 0 then Some [] else None)"
| "backtrack s (Suc j) =
     (if lookaheadHyphen s (Suc j) then Some (take (Suc j) s) else backtrack s j)"

definition matchAt :: "jsstring \<Rightarrow> jsstring option" where
  "matchAt s = backtrack s (length (takeWhile (\<lambda>c. \<not> isLineTerminator c) s))"

fun exec :: "jsstring \<Rightarrow> jsstring option" where
  "exec [] = matchAt []"
| "exec (c # cs) = (case matchAt (c # cs) of Some m \<Rightarrow> Some m | None \<Rightarrow> exec cs)"

definition getDate :: "jsstring \<Rightarrow> jsstring" where
  "getDate dateString =
     (let clean = replaceRuns False [] [] dateString in
      case exec clean of Some m \<Rightarrow> trim m | None \<Rightarrow> [])"

definition getDate_site :: "jsstring \<Rightarrow> jsstring" where
  "getDate_site dateString =
     (let clean = replaceRuns True [] [] dateString in
      case exec clean of Some m \<Rightarrow> trim m | None \<Rightarrow> [])"

text \<open>
  What the match is, said without the search: the first line of the string that contains
  a hyphen, up to the last hyphen of that line.
\<close>

definition uptoLastHyphen :: "jsstring \<Rightarrow> jsstring" where
  "uptoLastHyphen line = rev (tl (dropWhile (\<lambda>c. c \<noteq> hyphen) (rev line)))"

definition firstHyphenLine :: "jsstring \<Rightarrow> jsstring option" where
  "firstHyphenLine s = find (\<lambda>line. hyphen \<in> set line) (splitWhere isLineTerminator s)"

text \<open>
  The rule as the specification words it: the text up to the first separator, runs of
  white space collapsed to one space.
\<close>

definition uptoFirstSeparator :: "jsstring \<Rightarrow> jsstring" where
  "uptoFirstSeparator dateString =
     trim (takeWhile (\<lambda>c. c \<noteq> hyphen) (replaceRuns False [space] [] dateString))"

section \<open>Data of the harvesting pipeline\<close>

text \<open>
  The only exception the pipeline can raise by itself is the TypeError of a method call
  on \<open>undefined\<close>. Errors of the file system are outside the model: reads of a missing
  file are a branch of the code, writes are taken to succeed.
\<close>

datatype jserror = TypeError

text \<open>
  A value that \<open>JSON.parse\<close> can produce (numbers are kept to the integers). An
  optional value \<open>None\<close> stands for \<open>undefined\<close>: a property that is absent, which
  \<open>JSON.stringify\<close> leaves out. A cache record that cannot be read or parsed behaves
  like a missing one, so the cache holds parsed records only.
\<close>

datatype json =
    JNull
  | JBool bool
  | JNum int
  | JStr jsstring
  | JArr "json list"
  | JObj "(jsstring \<times> json) list"

fun truthy :: "json option \<Rightarrow> bool" where
  "truthy None = False"
| "truthy (Some JNull) = False"
| "truthy (Some (JBool b)) = b"
| "truthy (Some (JNum n)) = (n \<noteq> 0)"
| "truthy (Some (JStr s)) = (s \<noteq> [])"
| "truthy (Some (JArr xs)) = True"
| "truthy (Some (JObj kvs)) = True"

text \<open>
  One element of class \<open>featured\<close> of a listing page, as far as the code looks at it:
  its first anchor and the \<open>href\<close> of that anchor, the text of its first \<open>h3\<close>, and
  the text of the first child of its first element of class \<open>date\<close>. Each of them may
  be missing.
\<close>

datatype anchor = NoAnchor | NoHref | Href jsstring

record element =
  el_anchor :: anchor
  el_h3 :: "jsstring option"
  el_date :: "jsstring option"

text \<open>
  The object \<open>{ link, headline, date }\<close> of a candidate and the object
  \<open>{ headline, date, link, htmlFile, victims }\<close> of a processed article, which is also
  the content of the cache record. The cache files of an article are
  \<open>${year}/${month}/${hashed}.html\<close> and \<open>.json\<close>; the pair of the directory and the
  hash stands for both paths.
\<close>

type_synonym cachekey = "jsstring \<times> int"

record payload =
  link :: jsstring
  headline :: "jsstring option"
  date :: jsstring

record article = payload +
  htmlFile :: cachekey
  victims :: "json option"

text \<open>
  What the runtime and the outside world contribute. \<open>dateTime s\<close> is
  \<open>new Date(s).getTime()\<close>, with \<open>None\<close> for NaN; \<open>dateDir s\<close> is the text
  \<open>${year}/${month}\<close> built from \<open>getFullYear\<close> and \<open>toLocaleString\<close> of
  \<open>new Date(s)\<close>. \<open>httpGet\<close> and \<open>scrapePage\<close> are the two ways of loading a page
  (\<open>None\<close>: the call throws); \<open>stripMarkup\<close> stands for the three replacements of
  \<open>fetchHTML\<close> (style blocks, script blocks, blank lines). \<open>featured\<close> is the
  document query on a listing page, \<open>contentBox\<close> the text of the element of class
  \<open>content-box\<close> of a detail page, \<open>chatCompletion\<close> the exchange with the
  extraction service.
\<close>

datatype request = ListingPage jsstring nat | DetailPage jsstring

datatype completion =
    NetworkError
  | NotOk
  | Malformed
  | ToolCall "json option"

record runtime =
  toLowerCase :: "jsstring \<Rightarrow> jsstring"
  dateTime :: "jsstring \<Rightarrow> int option"
  dateDir :: "jsstring \<Rightarrow> jsstring"
  httpGet :: "request \<Rightarrow> jsstring option"
  scrapePage :: "request \<Rightarrow> jsstring option"
  stripMarkup :: "jsstring \<Rightarrow> jsstring"
  featured :: "jsstring \<Rightarrow> element list"
  contentBox :: "jsstring \<Rightarrow> jsstring option"
  chatCompletion :: "jsstring \<Rightarrow> completion"

text \<open>
  The state: the module variable \<open>done\<close> and the files. The files live under paths
  that cannot coincide (\<open>${year}/${month}/...\<close>, \<open>./sources/${domain}/...html\<close>,
  \<open>.../page_${page}.json\<close>, \<open>.../all.json\<close>), so each family is a map of its own.
  \<open>trace\<close> is not in the code: it records the pages started and the pages requested
  from the network, so that claims about fetches can be stated.
\<close>

datatype event = PageStart nat | Fetch request

record world =
  done_flag :: bool
  metaFiles :: "cachekey \<rightharpoonup> article"
  htmlFiles :: "cachekey \<rightharpoonup> jsstring"
  listingFiles :: "jsstring \<times> jsstring \<times> nat \<rightharpoonup> jsstring"
  pageJson :: "jsstring \<times> nat \<rightharpoonup> article list"
  allJson :: "jsstring \<rightharpoonup> article list"
  trace :: "event list"

section \<open>Fetching and parsing a listing page\<close>

text \<open>
  \<^verbatim>\<open>
  export const fetchHTML = async (url = root) => {
      try {
          const res = await fetch(url)
          let html = await res.text()
          if (html) { ... } else { html = await scrapePage(url) ... }
          html = html.replace(...)  // three times
          return html
      } catch (e) { ...; return '' }
  }
  \<close>
  \<open>pageText\<close> is the text the function returns; \<open>fetchHTML\<close> also notes the request
  in the trace.
\<close>

definition pageText :: "runtime \<Rightarrow> request \<Rightarrow> jsstring" where
  "pageText rt url =
     (case httpGet rt url of
        None \<Rightarrow> []
      | Some html \<Rightarrow>
          if html \<noteq> [] then stripMarkup rt html
          else (case scrapePage rt url of
                  None \<Rightarrow> []
                | Some scraped \<Rightarrow> stripMarkup rt scraped))"

definition fetchHTML :: "runtime \<Rightarrow> request \<Rightarrow> world \<Rightarrow> jsstring \<times> world" where
  "fetchHTML rt url w = (pageText rt url, w\<lparr>trace := trace w @ [Fetch url]\<rparr>)"

definition root :: jsstring where
  "root = js ''https://www.dci-palestine.org/tags/fatalities_and_injuries''"

definition apex :: jsstring where
  "apex = join [slash] (take 3 (split slash root))"

definition cutoff :: jsstring where
  "cutoff = js ''October 1, 2023''"

text \<open>
  \<open>dateObj.getTime() > new Date('October 1, 2023').getTime()\<close>: a comparison with NaN
  on either side is false.
\<close>

definition relevant :: "runtime \<Rightarrow> jsstring \<Rightarrow> bool" where
  "relevant rt d =
     (case dateTime rt d of
        None \<Rightarrow> False
      | Some t \<Rightarrow> (case dateTime rt cutoff of None \<Rightarrow> False | Some c \<Rightarrow> c < t))"

text \<open>
  \<open>Array.prototype.reduce\<close> with a callback that can throw and that changes the
  state. The same function models \<open>links.reduce(async ...)\<close>, whose callbacks each
  await the accumulator of the one before: they run one after the other, and once one
  has thrown all later ones reject without doing anything.
\<close>

fun reduce ::
  "('acc \<Rightarrow> 'x \<Rightarrow> 's \<Rightarrow> (jserror + 'acc) \<times> 's) \<Rightarrow> 'x list \<Rightarrow> 'acc \<Rightarrow> 's \<Rightarrow> (jserror + 'acc) \<times> 's" where
  "reduce f [] acc w = (Inr acc, w)"
| "reduce f (x # xs) acc w =
     (case f acc x w of
        (Inl e, w') \<Rightarrow> (Inl e, w')
      | (Inr acc', w') \<Rightarrow> reduce f xs acc' w')"

text \<open>
  \<^verbatim>\<open>
  const articleLinks = Array.from(articles).reduce((acc, article) => {
      const _link = article.querySelector('a')
      const headline = article?.querySelector('h3')?.textContent?.trim()
      const dateDirty = article.getElementsByClassName('date')[0]?.firstChild?.textContent
      const apex = root.split('/').slice(0, 3).join('/')
      const link = apex + _link?.getAttribute('href') || ''
      const date = getDate(dateDirty)
      const dateObj = new Date(date)
      const relevant = dateObj.getTime() > new Date('October 1, 2023').getTime()
      if (relevant) {
          return acc.concat({ link, headline, date })
      } else {
          done = true
          return acc
      }
  }, [])
  \<close>
  \<open>getDate(undefined)\<close> throws a TypeError. \<open>apex + x || ''\<close> is \<open>(apex + x) || ''\<close>,
  and \<open>apex + x\<close> is never empty.
\<close>

definition hrefText :: "anchor \<Rightarrow> jsstring" where
  "hrefText a = (case a of NoAnchor \<Rightarrow> js ''undefined'' | NoHref \<Rightarrow> js ''null'' | Href h \<Rightarrow> h)"

definition candidate :: "element \<Rightarrow> jsstring \<Rightarrow> payload" where
  "candidate el d =
     \<lparr>link = apex @ hrefText (el_anchor el), headline = map_option trim (el_h3 el), date = d\<rparr>"

definition landingStep ::
  "runtime \<Rightarrow> payload list \<Rightarrow> element \<Rightarrow> world \<Rightarrow> (jserror + payload list) \<times> world" where
  "landingStep rt acc el w =
     (case el_date el of
        None \<Rightarrow> (Inl TypeError, w)
      | Some dateDirty \<Rightarrow>
          (let d = getDate dateDirty in
           if relevant rt d then (Inr (acc @ [candidate el d]), w)
           else (Inr acc, w\<lparr>done_flag := True\<rparr>)))"

definition getDciLinksFromLanding ::
  "runtime \<Rightarrow> jsstring \<Rightarrow> world \<Rightarrow> (jserror + payload list) \<times> world" where
  "getDciLinksFromLanding rt html w = reduce (landingStep rt) (featured rt html) [] w"

section \<open>Fetching, extracting and caching the articles of a page\<close>

definition keywordList :: "jsstring list" where
  "keywordList = map js
     [''shoot'', ''shot'', ''kill'', ''murder'', ''martyr'', ''fire'', ''weapon'', ''dead'',
      ''died'', ''death'', ''injur'', ''wound'', ''hurt'', ''casualt'', ''fatal'', ''bomb'',
      ''explo'', ''strike'', ''attack'', ''viol'']"

text \<open>\<open>words.some((word) => headline.toLowerCase().includes(word))\<close> for a headline that is a string.\<close>

definition keywordMatch :: "runtime \<Rightarrow> jsstring list \<Rightarrow> jsstring \<Rightarrow> bool" where
  "keywordMatch rt words h = list_ex (\<lambda>word. str_includes (toLowerCase rt h) word) words"

text \<open>\<open>const clean = (str) => str.replace(/\s{2,}/g, ' ').trim()\<close>\<close>

definition clean :: "jsstring \<Rightarrow> jsstring" where
  "clean str = trim (replaceRuns False [space] [] str)"

text \<open>
  \<open>callClosedAi\<close> returns \<open>undefined\<close> when the request throws, when the response is
  not OK, and when the body lacks \<open>choices[0].message.tool_calls[0].function\<close> or its
  \<open>arguments\<close> do not parse (the exception is caught); otherwise it returns
  \<open>{ name, arguments: results }\<close>, of which only \<open>results\<close> is used.
  \<open>htmlToText\<close> calls \<open>clean\<close> on the text of the content box and throws a TypeError
  when there is none.
\<close>

definition callClosedAi :: "runtime \<Rightarrow> jsstring \<Rightarrow> json option option" where
  "callClosedAi rt text =
     (case chatCompletion rt text of
        ToolCall results \<Rightarrow> Some results
      | _ \<Rightarrow> None)"

definition getPageAndConvertToData :: "runtime \<Rightarrow> jsstring \<Rightarrow> jserror + json option option" where
  "getPageAndConvertToData rt html =
     (case contentBox rt html of
        None \<Rightarrow> Inl TypeError
      | Some text \<Rightarrow> Inr (callClosedAi rt (clean text)))"

text \<open>
  \<^verbatim>\<open>
  let data = { arguments: null, name: null }
  ...
  try {
      data = (await getPageAndConvertToData(html)) || { arguments: null, name: null }
  } catch (e) { ... }
  const victims = data['arguments']
  \<close>
\<close>

definition extractVictims :: "runtime \<Rightarrow> jsstring \<Rightarrow> json option" where
  "extractVictims rt html =
     (case getPageAndConvertToData rt html of
        Inl e \<Rightarrow> Some JNull
      | Inr None \<Rightarrow> Some JNull
      | Inr (Some results) \<Rightarrow> results)"

definition cacheKey :: "runtime \<Rightarrow> jsstring \<Rightarrow> payload \<Rightarrow> cachekey" where
  "cacheKey rt h p = (dateDir rt (date p), hash h)"

definition mkArticle :: "payload \<Rightarrow> cachekey \<Rightarrow> json option \<Rightarrow> article" where
  "mkArticle p key v =
     \<lparr>link = link p, headline = headline p, date = date p, htmlFile = key, victims = v\<rparr>"

text \<open>
  The \<open>try\<close> block of the callback: the record is read, and its victims are used when
  they are truthy. Every other outcome (no file, no victims) ends in the \<open>catch\<close>
  block, which fetches the page, extracts and writes both files.
\<close>

definition cachedVictims :: "world \<Rightarrow> cachekey \<Rightarrow> json option option" where
  "cachedVictims w key =
     (case metaFiles w key of
        None \<Rightarrow> None
      | Some r \<Rightarrow> if truthy (victims r) then Some (victims r) else None)"

definition fetchAndStore ::
  "runtime \<Rightarrow> payload \<Rightarrow> cachekey \<Rightarrow> world \<Rightarrow> article \<times> world" where
  "fetchAndStore rt p key w =
     (case fetchHTML rt (DetailPage (link p)) w of
        (html, w1) \<Rightarrow>
          (let a = mkArticle p key (extractVictims rt html) in
           (a, w1\<lparr>htmlFiles := (htmlFiles w1)(key \<mapsto> html),
                   metaFiles := (metaFiles w1)(key \<mapsto> a)\<rparr>)))"

text \<open>
  The callback of \<open>links.reduce\<close> in \<open>getAndStoreArticlesFromLinks\<close>, with the list
  of keywords as a parameter. \<open>some\<close> on an empty array does not call its callback, so an
  undefined headline throws only when there is a keyword to test.
\<close>

definition storeStep ::
  "runtime \<Rightarrow> jsstring list \<Rightarrow> article list \<Rightarrow> payload \<Rightarrow> world \<Rightarrow> (jserror + article list) \<times> world" where
  "storeStep rt words acc p w =
     (case headline p of
        None \<Rightarrow> if words = [] then (Inr acc, w) else (Inl TypeError, w)
      | Some h \<Rightarrow>
          if keywordMatch rt words h then
            (let key = cacheKey rt h p in
             case cachedVictims w key of
               Some v \<Rightarrow> (Inr (acc @ [mkArticle p key v]), w)
             | None \<Rightarrow>
                 (case fetchAndStore rt p key w of
                    (a, w') \<Rightarrow> (Inr (acc @ [a]), w')))
          else (Inr acc, w))"

definition getAndStoreArticlesFromLinks ::
  "runtime \<Rightarrow> payload list \<Rightarrow> world \<Rightarrow> (jserror + article list) \<times> world" where
  "getAndStoreArticlesFromLinks rt links w = reduce (storeStep rt keywordList) links [] w"

section \<open>The pagination driver\<close>

text \<open>
  \<^verbatim>\<open>
  const getArticlesRecursively = async ({ page = 1, acc = [], source = root, stop = 2 }) => {
      const domain = source.split('/')[2]
      const dir = `./sources/${domain}`
      const article = source.split('/').slice(-1)[0]
      if (!done && page <= stop) {
          const file = `./sources/${domain}/${article}?page=${page}.html`
          await new Promise((resolve) => setTimeout(resolve, 1000))
          let html = null
          try { html = await promises.readFile(file, 'utf8') }
          catch (e) { html = await fetchHTML(`${source}?page=${page}`) }
          if (html) {
              const linksForPage = await getDciLinksFromLanding(html)
              const articlesForPage = await getAndStoreArticlesFromLinks(linksForPage)
              await promises.writeFile(`${dir}/page_${page}.json`, ...articlesForPage...)
              await promises.writeFile(file, html)
              return getArticlesRecursively({ page: page + 1,
                  acc: acc.concat(articlesForPage), source, stop })
          } else { return acc }
      } else {
          await promises.writeFile(`${dir}/all.json`, JSON.stringify(acc, null, 2))
          return acc
      }
  }
  \<close>
\<close>

definition domainOf :: "jsstring \<Rightarrow> jsstring" where
  "domainOf source =
     (let parts = split slash source in
      if 2 < length parts then parts ! 2 else js ''undefined'')"

definition articleOf :: "jsstring \<Rightarrow> jsstring" where
  "articleOf source = last (split slash source)"

definition listingFile :: "jsstring \<Rightarrow> nat \<Rightarrow> jsstring \<times> jsstring \<times> nat" where
  "listingFile source page = (domainOf source, articleOf source, page)"

definition loadListing :: "runtime \<Rightarrow> jsstring \<Rightarrow> nat \<Rightarrow> world \<Rightarrow> jsstring \<times> world" where
  "loadListing rt source page w =
     (let w0 = w\<lparr>trace := trace w @ [PageStart page]\<rparr> in
      case listingFiles w0 (listingFile source page) of
        Some html \<Rightarrow> (html, w0)
      | None \<Rightarrow> fetchHTML rt (ListingPage source page) w0)"

definition processPage ::
  "runtime \<Rightarrow> jsstring \<Rightarrow> world \<Rightarrow> (jserror + article list) \<times> world" where
  "processPage rt html w =
     (case getDciLinksFromLanding rt html w of
        (Inl e, w') \<Rightarrow> (Inl e, w')
      | (Inr linksForPage, w') \<Rightarrow> getAndStoreArticlesFromLinks rt linksForPage w')"

definition persistPage :: "jsstring \<Rightarrow> nat \<Rightarrow> jsstring \<Rightarrow> article list \<Rightarrow> world \<Rightarrow> world" where
  "persistPage source page html articlesForPage w =
     w\<lparr>pageJson := (pageJson w)((domainOf source, page) \<mapsto> articlesForPage),
       listingFiles := (listingFiles w)(listingFile source page \<mapsto> html)\<rparr>"

definition writeAll :: "jsstring \<Rightarrow> article list \<Rightarrow> world \<Rightarrow> world" where
  "writeAll source acc w = w\<lparr>allJson := (allJson w)(domainOf source \<mapsto> acc)\<rparr>"

function getArticlesRecursively ::
  "runtime \<Rightarrow> nat \<Rightarrow> article list \<Rightarrow> jsstring \<Rightarrow> nat \<Rightarrow> world \<Rightarrow> (jserror + article list) \<times> world" where
  "getArticlesRecursively rt page acc source stop w =
     (if \<not> done_flag w \<and> page \<le> stop then
        (case loadListing rt source page w of
           (html, w1) \<Rightarrow>
             if html \<noteq> [] then
               (case processPage rt html w1 of
                  (Inl e, w3) \<Rightarrow> (Inl e, w3)
                | (Inr articlesForPage, w3) \<Rightarrow>
                    getArticlesRecursively rt (page + 1) (acc @ articlesForPage) source stop
                      (persistPage source page html articlesForPage w3))
             else (Inr acc, w1))
      else (Inr acc, writeAll source acc w))"
  by pat_completeness auto
termination
  by (relation "measure (\<lambda>(rt, page, acc, source, stop, w). stop + 1 - page)") auto

text \<open>
  A run of the program: the module is loaded (\<open>let done = false\<close>) and the driver is
  called from page 1 with an empty accumulator. The trace starts empty.
\<close>

definition freshProcess :: "world \<Rightarrow> world" where
  "freshProcess w = w\<lparr>done_flag := False, trace := []\<rparr>"

definition runPipeline :: "runtime \<Rightarrow> jsstring \<Rightarrow> nat \<Rightarrow> world \<Rightarrow> (jserror + article list) \<times> world" where
  "runPipeline rt source stop w = getArticlesRecursively rt 1 [] source stop (freshProcess w)"

definition detailFetches :: "world \<Rightarrow> jsstring list" where
  "detailFetches w = concat (map (\<lambda>ev. case ev of Fetch (DetailPage url) \<Rightarrow> [url] | _ \<Rightarrow> []) (trace w))"

definition pagesStarted :: "world \<Rightarrow> nat list" where
  "pagesStarted w = concat (map (\<lambda>ev. case ev of PageStart n \<Rightarrow> [n] | _ \<Rightarrow> []) (trace w))"

section \<open>Vocabulary of the statements\<close>

text \<open>
  The date text of a summary (empty when the summary has no date element, where the
  code throws), whether it is after the cutoff, and the candidates that a page yields
  when every summary is judged by its own date.
\<close>

definition summaryDate :: "element \<Rightarrow> jsstring" where
  "summaryDate el = (case el_date el of None \<Rightarrow> [] | Some d \<Rightarrow> getDate d)"

definition afterCutoff :: "runtime \<Rightarrow> element \<Rightarrow> bool" where
  "afterCutoff rt el = relevant rt (summaryDate el)"

definition retained :: "runtime \<Rightarrow> element list \<Rightarrow> payload list" where
  "retained rt els = map (\<lambda>el. candidate el (summaryDate el)) (filter (afterCutoff rt) els)"

definition hasPastCutoff :: "runtime \<Rightarrow> element list \<Rightarrow> bool" where
  "hasPastCutoff rt els = list_ex (\<lambda>el. \<not> afterCutoff rt el) els"

definition dated :: "element list \<Rightarrow> bool" where
  "dated els = list_all (\<lambda>el. el_date el \<noteq> None) els"

text \<open>
  The extraction of a detail page fails: the page has no content box (\<open>htmlToText\<close>
  throws), or the exchange with the service ends in an error, a status that is not OK,
  or a body that cannot be read.
\<close>

definition extractionFails :: "runtime \<Rightarrow> jsstring \<Rightarrow> bool" where
  "extractionFails rt html =
     (case contentBox rt html of
        None \<Rightarrow> True
      | Some text \<Rightarrow>
          (case chatCompletion rt (clean text) of
             ToolCall results \<Rightarrow> False
           | _ \<Rightarrow> True))"

text \<open>Two states hold the same files.\<close>

definition sameFiles :: "world \<Rightarrow> world \<Rightarrow> bool" where
  "sameFiles a b \<longleftrightarrow>
     metaFiles a = metaFiles b \<and> htmlFiles a = htmlFiles b \<and> listingFiles a = listingFiles b
     \<and> pageJson a = pageJson b \<and> allJson a = allJson b"

section \<open>A runtime for the examples\<close>

text \<open>
  The examples run on a small instance of the runtime. It lowers ASCII letters, reads
  dates written \<open>Month D, YYYY\<close> (the form the site uses, the comma optional) as
  midnight UTC of that day and takes every other text for an invalid date, serves pages
  from a table without a fallback, and leaves the markup as it is.
\<close>

definition asciiLower :: "jsstring \<Rightarrow> jsstring" where
  "asciiLower s = map (\<lambda>c. if 65 \<le> c \<and> c \<le> 90 then c + 32 else c) s"

definition monthNames :: "jsstring list" where
  "monthNames = map js
     [''January'', ''February'', ''March'', ''April'', ''May'', ''June'', ''July'',
      ''August'', ''September'', ''October'', ''November'', ''December'']"

fun indexOf :: "'a list \<Rightarrow> 'a \<Rightarrow> nat option" where
  "indexOf [] y = None"
| "indexOf (x # xs) y = (if x = y then Some 0 else map_option Suc (indexOf xs y))"

fun parseDigits :: "jsstring \<Rightarrow> nat \<Rightarrow> nat option" where
  "parseDigits [] n = Some n"
| "parseDigits (c # cs) n =
     (if 48 \<le> c \<and> c \<le> 57 then parseDigits cs (n * 10 + (unat c - 48)) else None)"

definition longDate :: "jsstring \<Rightarrow> (nat \<times> nat \<times> nat) option" where
  "longDate s =
     (case filter (\<lambda>t. t \<noteq> []) (split space (filter (\<lambda>c. c \<noteq> comma) s)) of
        [m, d, y] \<Rightarrow>
          (case indexOf monthNames m of
             None \<Rightarrow> None
           | Some mi \<Rightarrow>
               (case parseDigits d 0 of
                  None \<Rightarrow> None
                | Some dn \<Rightarrow>
                    (case parseDigits y 0 of
                       None \<Rightarrow> None
                     | Some yn \<Rightarrow>
                         if length y = 4 \<and> 1000 \<le> yn \<and> 1 \<le> dn \<and> dn \<le> 31
                         then Some (yn, Suc mi, dn) else None)))
      | _ \<Rightarrow> None)"

text \<open>The number of days from 1 January 1970 to a day of the Gregorian calendar.\<close>

definition daysFromCivil :: "nat \<Rightarrow> nat \<Rightarrow> nat \<Rightarrow> int" where
  "daysFromCivil y m d =
     (let y' = (if m \<le> 2 then int y - 1 else int y);
          era = y' div 400;
          yoe = y' - era * 400;
          mp = (if 2 < m then int m - 3 else int m + 9);
          doy = (153 * mp + 2) div 5 + int d - 1;
          doe = yoe * 365 + yoe div 4 - yoe div 100 + doy
      in era * 146097 + doe - 719468)"

definition utcTime :: "jsstring \<Rightarrow> int option" where
  "utcTime s = map_option (\<lambda>(y, m, d). daysFromCivil y m d * 86400000) (longDate s)"

definition digitChar :: "nat \<Rightarrow> 16 word" where
  "digitChar n = of_nat (48 + n mod 10)"

definition yearMonthDir :: "jsstring \<Rightarrow> jsstring" where
  "yearMonthDir s =
     (case longDate s of
        None \<Rightarrow> js ''NaN/Invalid Date''
      | Some (y, m, d) \<Rightarrow>
          [digitChar (y div 1000), digitChar (y div 100), digitChar (y div 10), digitChar y]
          @ [slash] @ monthNames ! (m - 1))"

definition exampleRuntime ::
  "(request \<Rightarrow> jsstring option) \<Rightarrow> (jsstring \<Rightarrow> element list) \<Rightarrow> (jsstring \<Rightarrow> completion) \<Rightarrow> runtime" where
  "exampleRuntime net listing ai =
     \<lparr>toLowerCase = asciiLower, dateTime = utcTime, dateDir = yearMonthDir,
      httpGet = net, scrapePage = (\<lambda>url. None), stripMarkup = (\<lambda>html. html),
      featured = listing, contentBox = Some, chatCompletion = ai\<rparr>"

definition emptyWorld :: world where
  "emptyWorld =
     \<lparr>done_flag = False, metaFiles = Map.empty, htmlFiles = Map.empty,
      listingFiles = Map.empty, pageJson = Map.empty, allJson = Map.empty, trace = []\<rparr>"

definition summary :: "string \<Rightarrow> string \<Rightarrow> string \<Rightarrow> element" where
  "summary href h3 dateText =
     \<lparr>el_anchor = Href (js href), el_h3 = Some (js h3), el_date = Some (js dateText)\<rparr>"

text \<open>
  The page of the specification's example (four summaries, dated 5 and 3 January 2024,
  20 September and 1 August 2023) and a page on which an old summary stands between two
  recent ones. The example network serves the first page as listing 1, nothing on later
  pages, and a text of its own for every detail link; the example extraction service
  answers with a list that holds the text it was given.
\<close>

definition boyKilled :: element where
  "boyKilled = summary ''/boy_killed'' ''Boy killed in strike'' ''January 05, 2024 \<newline> - Location:''"

definition councilMeeting :: element where
  "councilMeeting = summary ''/council'' ''Council meeting schedule'' ''January 03, 2024 \<newline> - Location:''"

definition childShot :: element where
  "childShot = summary ''/child_shot'' ''Child shot dead'' ''September 20, 2023 \<newline> - Location:''"

definition villageAttack :: element where
  "villageAttack = summary ''/village'' ''Village attack'' ''August 01, 2023 \<newline> - Location:''"

definition examplePage :: "element list" where
  "examplePage = [boyKilled, councilMeeting, childShot, villageAttack]"

definition mixedPage :: "element list" where
  "mixedPage = [boyKilled, childShot, councilMeeting]"

definition exampleNet :: "request \<Rightarrow> jsstring option" where
  "exampleNet url =
     (case url of
        ListingPage source n \<Rightarrow> if n = 1 then Some (js ''listing 1'') else Some []
      | DetailPage l \<Rightarrow> Some (js ''text of '' @ l))"

definition exampleListing :: "element list \<Rightarrow> jsstring \<Rightarrow> element list" where
  "exampleListing els html = (if html = js ''listing 1'' then els else [])"

definition echoService :: "jsstring \<Rightarrow> completion" where
  "echoService text = ToolCall (Some (JArr [JStr text]))"

definition failingService :: "jsstring \<Rightarrow> completion" where
  "failingService text = NotOk"

definition specSite :: runtime where
  "specSite = exampleRuntime exampleNet (exampleListing examplePage) echoService"

definition mixedSite :: runtime where
  "mixedSite = exampleRuntime exampleNet (exampleListing mixedPage) echoService"

definition afterListing :: world where
  "afterListing = emptyWorld\<lparr>trace := [PageStart 1, Fetch (ListingPage root 1)]\<rparr>"



definition failingSite :: runtime where
  "failingSite = exampleRuntime exampleNet (exampleListing examplePage) failingService"

text \<open>A second summary with the headline of the first, another link and another day of the same month.\<close>

definition boyKilledAgain :: element where
  "boyKilledAgain = summary ''/boy_killed_update'' ''Boy killed in strike'' ''January 07, 2024 \<newline> - Location:''"

text \<open>The first candidate of the example page, its cache key and its link.\<close>

definition firstCandidate :: payload where
  "firstCandidate = candidate boyKilled (js ''January 05, 2024'')"

definition firstKey :: cachekey where
  "firstKey = (js ''2024/January'', hash (js ''Boy killed in strike''))"

definition firstLink :: jsstring where
  "firstLink = apex @ js ''/boy_killed''"

definition secondCandidate :: payload where
  "secondCandidate = candidate boyKilledAgain (js ''January 07, 2024'')"

definition secondLink :: jsstring where
  "secondLink = apex @ js ''/boy_killed_update''"

text \<open>
  What a first run over the example page leaves behind, from an empty state: the one
  article whose headline has a keyword, and the state with its two cache files, the
  page file, the listing file and the aggregate file.
\<close>

definition firstArticle :: "runtime \<Rightarrow> article" where
  "firstArticle rt = mkArticle firstCandidate firstKey (extractVictims rt (js ''text of '' @ firstLink))"

definition afterFirstRun :: "runtime \<Rightarrow> world" where
  "afterFirstRun rt =
     writeAll root [firstArticle rt]
       (persistPage root 1 (js ''listing 1'') [firstArticle rt]
          (afterListing
             \<lparr>done_flag := True,
              trace := trace afterListing @ [Fetch (DetailPage firstLink)],
              htmlFiles := (htmlFiles afterListing)(firstKey \<mapsto> js ''text of '' @ firstLink),
              metaFiles := (metaFiles afterListing)(firstKey \<mapsto> firstArticle rt)\<rparr>))"

section \<open>The match of the date expression\<close>

lemmas char_defs =
  hyphen_def space_def slash_def comma_def isWhiteSpace_def isLineTerminator_def

lemmas getDate_eval =
  getDate_def js_def char_defs matchAt_def lookaheadHyphen_def flushRun_def trim_def

lemmas page_defs =
  examplePage_def mixedPage_def boyKilled_def councilMeeting_def childShot_def
  villageAttack_def summary_def

lemmas date_eval =
  utcTime_def longDate_def split_def monthNames_def daysFromCivil_def cutoff_def

lemmas rt_eval =
  exampleRuntime_def exampleNet_def exampleListing_def echoService_def failingService_def
  asciiLower_def

lemma backtrack_none: "(\<forall>k\<le>n. \<not> lookaheadHyphen s k) \<Longrightarrow> backtrack s n = None"
  by (induction n) auto

lemma backtrack_found:
  "j \<le> n \<Longrightarrow> lookaheadHyphen s j \<Longrightarrow> (\<forall>k. j < k \<and> k \<le> n \<longrightarrow> \<not> lookaheadHyphen s k)
   \<Longrightarrow> backtrack s n = Some (take j s)"
proof (induction n)
  case 0
  then show ?case by simp
next
  case (Suc n)
  show ?case
  proof (cases "j = Suc n")
    case True
    with Suc.prems show ?thesis by simp
  next
    case False
    with Suc.prems have "j \<le> n" "\<not> lookaheadHyphen s (Suc n)" by auto
    with Suc show ?thesis by simp
  qed
qed

lemma uptoLastHyphen_append:
  assumes "hyphen \<notin> set b"
  shows "uptoLastHyphen (a @ hyphen # b) = a"
proof -
  have "dropWhile (\<lambda>c. c \<noteq> hyphen) (rev b) = []"
    using assms by (auto simp: dropWhile_eq_Nil_conv)
  then have "dropWhile (\<lambda>c. c \<noteq> hyphen) (rev b @ hyphen # rev a) = hyphen # rev a"
    by (simp add: dropWhile_append)
  then show ?thesis by (simp add: uptoLastHyphen_def)
qed

lemma hyphen_not_terminator: "\<not> isLineTerminator hyphen"
  by (simp add: isLineTerminator_def hyphen_def)

lemma matchAt_eq:
  "matchAt s =
     (if hyphen \<in> set (takeWhile (\<lambda>c. \<not> isLineTerminator c) s)
      then Some (uptoLastHyphen (takeWhile (\<lambda>c. \<not> isLineTerminator c) s)) else None)"
proof -
  define L where "L = takeWhile (\<lambda>c. \<not> isLineTerminator c) s"
  have inside: "lookaheadHyphen s k \<longleftrightarrow> L ! k = hyphen" if "k < length L" for k
  proof -
    have "L ! k = s ! k" using that unfolding L_def by (rule takeWhile_nth)
    moreover have "length L \<le> length s" unfolding L_def by (rule length_takeWhile_le)
    ultimately show ?thesis using that by (simp add: lookaheadHyphen_def)
  qed
  have edge: "\<not> lookaheadHyphen s (length L)"
  proof
    assume a: "lookaheadHyphen s (length L)"
    then have "length L < length s" by (simp add: lookaheadHyphen_def)
    then have "\<not> \<not> isLineTerminator (s ! length L)"
      unfolding L_def by (rule nth_length_takeWhile)
    with a show False by (simp add: lookaheadHyphen_def hyphen_not_terminator)
  qed
  show ?thesis
  proof (cases "hyphen \<in> set L")
    case False
    have "\<forall>k\<le>length L. \<not> lookaheadHyphen s k"
    proof (intro allI impI)
      fix k assume "k \<le> length L"
      show "\<not> lookaheadHyphen s k"
      proof (cases "k = length L")
        case True then show ?thesis using edge by simp
      next
        case False
        with \<open>k \<le> length L\<close> have "k < length L" by simp
        then show ?thesis using \<open>hyphen \<notin> set L\<close> inside nth_mem by metis
      qed
    qed
    then have "backtrack s (length L) = None" by (rule backtrack_none)
    with False show ?thesis by (simp add: matchAt_def L_def)
  next
    case True
    then obtain a b where ab: "L = a @ hyphen # b" "hyphen \<notin> set b"
      by (auto dest: split_list_last)
    have s: "s = L @ dropWhile (\<lambda>c. \<not> isLineTerminator c) s" by (simp add: L_def)
    have "take (length a) s = a"
    proof -
      have "take (length a) s = take (length a) (a @ hyphen # b @ dropWhile (\<lambda>c. \<not> isLineTerminator c) s)"
        using s ab by simp
      then show ?thesis by simp
    qed
    moreover have "backtrack s (length L) = Some (take (length a) s)"
    proof (rule backtrack_found)
      show "length a \<le> length L" using ab by simp
      show "lookaheadHyphen s (length a)" using inside [of "length a"] ab by simp
      show "\<forall>k. length a < k \<and> k \<le> length L \<longrightarrow> \<not> lookaheadHyphen s k"
      proof (intro allI impI)
        fix k assume k: "length a < k \<and> k \<le> length L"
        show "\<not> lookaheadHyphen s k"
        proof (cases "k = length L")
          case True then show ?thesis using edge by simp
        next
          case False
          with k have kl: "k < length L" by simp
          have "L ! k = b ! (k - length a - 1)" using k ab by (simp add: nth_append nth_Cons')
          moreover have "k - length a - 1 < length b" using kl k ab by simp
          ultimately have "L ! k \<in> set b" by simp
          with ab have "L ! k \<noteq> hyphen" by auto
          then show ?thesis using inside kl by simp
        qed
      qed
    qed
    ultimately have "matchAt s = Some a" by (simp add: matchAt_def L_def)
    moreover have "uptoLastHyphen L = a" using ab by (simp add: uptoLastHyphen_append)
    ultimately show ?thesis using True by (simp add: L_def)
  qed
qed

lemma splitWhere_not_Nil: "splitWhere P xs \<noteq> []"
  by (induction xs) (auto split: list.splits)

lemma hd_splitWhere: "hd (splitWhere P xs) = takeWhile (\<lambda>x. \<not> P x) xs"
  by (induction xs) (auto split: list.splits simp: splitWhere_not_Nil)

lemma exec_eq: "exec s = map_option uptoLastHyphen (firstHyphenLine s)"
proof (induction s)
  case Nil
  show ?case by (simp add: matchAt_def lookaheadHyphen_def firstHyphenLine_def)
next
  case (Cons x cs)
  obtain l1 ls where ls: "splitWhere isLineTerminator cs = l1 # ls"
    using splitWhere_not_Nil [of isLineTerminator cs] by (cases "splitWhere isLineTerminator cs") auto
  have l1: "l1 = takeWhile (\<lambda>c. \<not> isLineTerminator c) cs"
    using hd_splitWhere [of isLineTerminator cs] ls by simp
  show ?case
  proof (cases "isLineTerminator x")
    case True
    then have "matchAt (x # cs) = None" by (simp add: matchAt_eq)
    moreover have "firstHyphenLine (x # cs) = firstHyphenLine cs"
      using True by (simp add: firstHyphenLine_def)
    ultimately show ?thesis using Cons.IH by simp
  next
    case False
    then have lines: "splitWhere isLineTerminator (x # cs) = (x # l1) # ls" using ls by simp
    have tw: "takeWhile (\<lambda>c. \<not> isLineTerminator c) (x # cs) = x # l1" using False l1 by simp
    show ?thesis
    proof (cases "hyphen \<in> set (x # l1)")
      case True
      then have "matchAt (x # cs) = Some (uptoLastHyphen (x # l1))"
        unfolding matchAt_eq tw by simp
      moreover have "firstHyphenLine (x # cs) = Some (x # l1)"
        using True lines by (simp add: firstHyphenLine_def)
      ultimately show ?thesis by simp
    next
      case False
      then have "matchAt (x # cs) = None" unfolding matchAt_eq tw by simp
      moreover have "firstHyphenLine (x # cs) = firstHyphenLine cs"
        using False lines ls by (simp add: firstHyphenLine_def)
      ultimately show ?thesis using Cons.IH by simp
    qed
  qed
qed

section \<open>Facts about the two reductions\<close>

lemma landingStep_dated:
  "el_date el \<noteq> None \<Longrightarrow>
   landingStep rt acc el w =
     (if afterCutoff rt el then (Inr (acc @ [candidate el (summaryDate el)]), w)
      else (Inr acc, w\<lparr>done_flag := True\<rparr>))"
  by (auto simp: landingStep_def afterCutoff_def summaryDate_def Let_def)

lemma reduce_landingStep:
  "dated els \<Longrightarrow>
   reduce (landingStep rt) els acc w =
     (Inr (acc @ retained rt els), if hasPastCutoff rt els then w\<lparr>done_flag := True\<rparr> else w)"
proof (induction els arbitrary: acc w)
  case Nil
  show ?case by (simp add: retained_def hasPastCutoff_def)
next
  case (Cons el els)
  then have d: "el_date el \<noteq> None" and ds: "dated els" by (simp_all add: dated_def)
  show ?case
    by (simp add: landingStep_dated [OF d] Cons.IH [OF ds] retained_def hasPastCutoff_def)
qed

lemma getDciLinksFromLanding_dated:
  "dated (featured rt html) \<Longrightarrow>
   getDciLinksFromLanding rt html w =
     (Inr (retained rt (featured rt html)),
      if hasPastCutoff rt (featured rt html) then w\<lparr>done_flag := True\<rparr> else w)"
  by (simp add: getDciLinksFromLanding_def reduce_landingStep)

lemma filter_takeWhile_descending:
  "\<forall>x\<in>set (dropWhile P xs). \<not> P x \<Longrightarrow> filter P xs = takeWhile P xs"
proof -
  assume a: "\<forall>x\<in>set (dropWhile P xs). \<not> P x"
  have "filter P xs = filter P (takeWhile P xs @ dropWhile P xs)" by simp
  also have "\<dots> = filter P (takeWhile P xs) @ filter P (dropWhile P xs)" by (rule filter_append)
  also have "filter P (takeWhile P xs) = takeWhile P xs" by (simp add: filter_id_conv) (meson set_takeWhileD)
  also have "filter P (dropWhile P xs) = []" using a by (simp add: filter_empty_conv)
  finally show ?thesis by simp
qed

lemma reduce_invariant:
  assumes step: "\<And>acc x w r w'. I w \<Longrightarrow> f acc x w = (r, w') \<Longrightarrow> I w'"
  shows "I w \<Longrightarrow> reduce f xs acc w = (r, w') \<Longrightarrow> I w'"
proof (induction xs arbitrary: acc w)
  case Nil
  then show ?case by simp
next
  case (Cons x xs)
  obtain r1 w1 where f: "f acc x w = (r1, w1)" by (cases "f acc x w")
  have I1: "I w1" using Cons.prems(1) f by (rule step)
  show ?case
  proof (cases r1)
    case (Inl e)
    with f Cons.prems(2) have "w' = w1" by simp
    with I1 show ?thesis by simp
  next
    case (Inr acc')
    with f Cons.prems(2) have "reduce f xs acc' w1 = (r, w')" by simp
    with I1 show ?thesis by (rule Cons.IH)
  qed
qed

lemma fetchAndStore_frame:
  "fetchAndStore rt p key w = (a, w') \<Longrightarrow>
   done_flag w' = done_flag w \<and> listingFiles w' = listingFiles w \<and> pageJson w' = pageJson w
   \<and> allJson w' = allJson w \<and> pagesStarted w' = pagesStarted w"
  by (auto simp: fetchAndStore_def fetchHTML_def Let_def pagesStarted_def)

lemma storeStep_frame:
  "storeStep rt ws acc p w = (r, w') \<Longrightarrow>
   done_flag w' = done_flag w \<and> listingFiles w' = listingFiles w \<and> pageJson w' = pageJson w
   \<and> allJson w' = allJson w \<and> pagesStarted w' = pagesStarted w"
  by (auto simp: storeStep_def Let_def split: option.splits if_splits prod.splits dest: fetchAndStore_frame)

lemma reduce_storeStep_frame:
  assumes "reduce (storeStep rt ws) links acc w = (r, w')"
  shows "done_flag w' = done_flag w \<and> listingFiles w' = listingFiles w \<and> pageJson w' = pageJson w
   \<and> allJson w' = allJson w \<and> pagesStarted w' = pagesStarted w"
proof -
  define I where "I = (\<lambda>v. done_flag v = done_flag w \<and> listingFiles v = listingFiles w \<and> pageJson v = pageJson w
   \<and> allJson v = allJson w \<and> pagesStarted v = pagesStarted w)"
  have "I w'"
  proof (rule reduce_invariant [where I = I and f = "storeStep rt ws", OF _ _ assms])
    show "I w" by (simp add: I_def)
    show "\<And>acc x w r w'. I w \<Longrightarrow> storeStep rt ws acc x w = (r, w') \<Longrightarrow> I w'"
      unfolding I_def using storeStep_frame by metis
  qed
  then show ?thesis by (simp add: I_def)
qed

section \<open>Facts about the driver\<close>

declare getArticlesRecursively.simps [simp del]

lemma loadListing_frame:
  "loadListing rt source page w = (html, w1) \<Longrightarrow>
   done_flag w1 = done_flag w \<and> metaFiles w1 = metaFiles w \<and> htmlFiles w1 = htmlFiles w
   \<and> listingFiles w1 = listingFiles w \<and> pageJson w1 = pageJson w \<and> allJson w1 = allJson w
   \<and> pagesStarted w1 = pagesStarted w @ [page]"
  by (auto simp: loadListing_def fetchHTML_def Let_def pagesStarted_def split: option.splits)

lemma landingStep_frame:
  "landingStep rt acc el w = (r, w') \<Longrightarrow>
   metaFiles w' = metaFiles w \<and> htmlFiles w' = htmlFiles w \<and> listingFiles w' = listingFiles w
   \<and> pageJson w' = pageJson w \<and> allJson w' = allJson w \<and> trace w' = trace w
   \<and> (done_flag w \<longrightarrow> done_flag w')"
  by (auto simp: landingStep_def Let_def split: option.splits if_splits)

lemma getDciLinksFromLanding_frame:
  assumes "getDciLinksFromLanding rt html w = (r, w')"
  shows "metaFiles w' = metaFiles w \<and> htmlFiles w' = htmlFiles w \<and> listingFiles w' = listingFiles w
   \<and> pageJson w' = pageJson w \<and> allJson w' = allJson w \<and> trace w' = trace w
   \<and> (done_flag w \<longrightarrow> done_flag w')"
proof -
  define I where "I = (\<lambda>v::world. metaFiles v = metaFiles w \<and> htmlFiles v = htmlFiles w \<and> listingFiles v = listingFiles w
   \<and> pageJson v = pageJson w \<and> allJson v = allJson w \<and> trace v = trace w
   \<and> (done_flag w \<longrightarrow> done_flag v))"
  have "I w'"
  proof (rule reduce_invariant [where I = I and f = "landingStep rt"])
    show "I w" by (simp add: I_def)
    show "reduce (landingStep rt) (featured rt html) [] w = (r, w')"
      using assms by (simp add: getDciLinksFromLanding_def)
    show "\<And>acc x w r w'. I w \<Longrightarrow> landingStep rt acc x w = (r, w') \<Longrightarrow> I w'"
      unfolding I_def using landingStep_frame by metis
  qed
  then show ?thesis by (simp add: I_def)
qed

lemma processPage_frame:
  assumes "processPage rt html w = (r, w')"
  shows "listingFiles w' = listingFiles w \<and> pageJson w' = pageJson w \<and> allJson w' = allJson w
   \<and> pagesStarted w' = pagesStarted w \<and> (done_flag w \<longrightarrow> done_flag w')"
proof -
  obtain r1 w1 where g: "getDciLinksFromLanding rt html w = (r1, w1)"
    by (cases "getDciLinksFromLanding rt html w")
  note f1 = getDciLinksFromLanding_frame [OF g]
  show ?thesis
  proof (cases r1)
    case (Inl e)
    with g assms have "w' = w1" by (simp add: processPage_def)
    with f1 show ?thesis by (simp add: pagesStarted_def)
  next
    case (Inr links)
    with g assms have "reduce (storeStep rt keywordList) links [] w1 = (r, w')"
      by (simp add: processPage_def getAndStoreArticlesFromLinks_def)
    from reduce_storeStep_frame [OF this] f1 show ?thesis by (simp add: pagesStarted_def)
  qed
qed

lemma pagesStarted_persistPage [simp]: "pagesStarted (persistPage source page html arts w) = pagesStarted w"
  by (simp add: persistPage_def pagesStarted_def)

lemma pagesStarted_writeAll [simp]: "pagesStarted (writeAll source acc w) = pagesStarted w"
  by (simp add: writeAll_def pagesStarted_def)

lemma driver_stop:
  "done_flag w \<or> stop < page \<Longrightarrow>
   getArticlesRecursively rt page acc source stop w = (Inr acc, writeAll source acc w)"
  by (auto simp: getArticlesRecursively.simps [of rt page acc source stop w])

lemma driver_empty:
  "\<not> done_flag w \<Longrightarrow> page \<le> stop \<Longrightarrow> loadListing rt source page w = ([], w1) \<Longrightarrow>
   getArticlesRecursively rt page acc source stop w = (Inr acc, w1)"
  by (simp add: getArticlesRecursively.simps [of rt page acc source stop w])

lemma driver_error:
  "\<not> done_flag w \<Longrightarrow> page \<le> stop \<Longrightarrow> loadListing rt source page w = (html, w1) \<Longrightarrow> html \<noteq> [] \<Longrightarrow>
   processPage rt html w1 = (Inl e, w3) \<Longrightarrow>
   getArticlesRecursively rt page acc source stop w = (Inl e, w3)"
  by (simp add: getArticlesRecursively.simps [of rt page acc source stop w])

lemma driver_next:
  "\<not> done_flag w \<Longrightarrow> page \<le> stop \<Longrightarrow> loadListing rt source page w = (html, w1) \<Longrightarrow> html \<noteq> [] \<Longrightarrow>
   processPage rt html w1 = (Inr arts, w3) \<Longrightarrow>
   getArticlesRecursively rt page acc source stop w =
     getArticlesRecursively rt (page + 1) (acc @ arts) source stop (persistPage source page html arts w3)"
  by (simp add: getArticlesRecursively.simps [of rt page acc source stop w])


section \<open>Facts about the processing of one candidate\<close>

lemma extractVictims_fails: "extractionFails rt html \<Longrightarrow> extractVictims rt html = Some JNull"
  by (auto simp: extractionFails_def extractVictims_def getPageAndConvertToData_def callClosedAi_def
      split: option.splits completion.splits)

lemma storeStep_miss:
  assumes "headline p = Some h" "keywordMatch rt ws h" "cachedVictims w (cacheKey rt h p) = None"
  shows "storeStep rt ws acc p w =
     (Inr (acc @ [mkArticle p (cacheKey rt h p) (extractVictims rt (pageText rt (DetailPage (link p))))]),
      w\<lparr>trace := trace w @ [Fetch (DetailPage (link p))],
        htmlFiles := (htmlFiles w)(cacheKey rt h p \<mapsto> pageText rt (DetailPage (link p))),
        metaFiles := (metaFiles w)(cacheKey rt h p \<mapsto>
           mkArticle p (cacheKey rt h p) (extractVictims rt (pageText rt (DetailPage (link p)))))\<rparr>)"
  using assms by (simp add: storeStep_def fetchAndStore_def fetchHTML_def Let_def)

lemma storeStep_hit:
  assumes "headline p = Some h" "keywordMatch rt ws h" "metaFiles w (cacheKey rt h p) = Some r" "truthy (victims r)"
  shows "storeStep rt ws acc p w = (Inr (acc @ [mkArticle p (cacheKey rt h p) (victims r)]), w)"
  using assms by (simp add: storeStep_def cachedVictims_def Let_def)

section \<open>Replaying a page against a filled cache\<close>

lemma storeStep_keeps:
  "storeStep rt ws acc p w = (r, w') \<Longrightarrow> metaFiles w k = Some rec \<Longrightarrow> truthy (victims rec)
   \<Longrightarrow> metaFiles w' k = Some rec"
  by (auto simp: storeStep_def fetchAndStore_def fetchHTML_def cachedVictims_def Let_def
      split: option.splits if_splits)

lemma reduce_storeStep_keeps:
  assumes "reduce (storeStep rt ws) links acc w = (r, w')"
    and "metaFiles w k = Some rec" and "truthy (victims rec)"
  shows "metaFiles w' k = Some rec"
proof (rule reduce_invariant [where I = "\<lambda>v. metaFiles v k = Some rec" and f = "storeStep rt ws", OF _ assms(2) assms(1)])
  show "\<And>acc x w r w'. metaFiles w k = Some rec \<Longrightarrow> storeStep rt ws acc x w = (r, w') \<Longrightarrow> metaFiles w' k = Some rec"
    using storeStep_keeps assms(3) by blast
qed

lemma storeStep_prefix: "storeStep rt ws acc p w = (Inr acc', w') \<Longrightarrow> prefix acc acc'"
  by (auto simp: storeStep_def fetchAndStore_def Let_def split: option.splits if_splits prod.splits)

lemma reduce_storeStep_prefix:
  "reduce (storeStep rt ws) links acc w = (Inr arts, w') \<Longrightarrow> prefix acc arts"
proof (induction links arbitrary: acc w)
  case Nil
  then show ?case by simp
next
  case (Cons p links)
  obtain r1 w1 where s: "storeStep rt ws acc p w = (r1, w1)" by (cases "storeStep rt ws acc p w")
  show ?case
  proof (cases r1)
    case (Inl e)
    with s Cons.prems show ?thesis by simp
  next
    case (Inr acc1)
    with s Cons.prems have "reduce (storeStep rt ws) links acc1 w1 = (Inr arts, w')" by simp
    then have "prefix acc1 arts" by (rule Cons.IH)
    moreover have "prefix acc acc1" using s Inr by (auto dest: storeStep_prefix)
    ultimately show ?thesis by (rule prefix_order.trans [rotated])
  qed
qed

lemma reduce_storeStep_replay:
  "reduce (storeStep rt ws) links acc w = (Inr arts, w') \<Longrightarrow> \<forall>a\<in>set arts. truthy (victims a) \<Longrightarrow>
   \<forall>k rec. metaFiles w' k = Some rec \<and> truthy (victims rec) \<longrightarrow> metaFiles t k = Some rec \<Longrightarrow>
   reduce (storeStep rt ws) links acc t = (Inr arts, t)"
proof (induction links arbitrary: acc w)
  case Nil
  then show ?case by simp
next
  case (Cons p links)
  obtain r1 w1 where s: "storeStep rt ws acc p w = (r1, w1)" by (cases "storeStep rt ws acc p w")
  from s Cons.prems(1) obtain acc1 where r1: "r1 = Inr acc1" by (cases r1) auto
  with s Cons.prems(1) have rest: "reduce (storeStep rt ws) links acc1 w1 = (Inr arts, w')" by simp
  note IH = Cons.IH [OF rest Cons.prems(2) Cons.prems(3)]
  have "storeStep rt ws acc p t = (Inr acc1, t)"
  proof (cases "headline p")
    case None
    with s r1 show ?thesis by (auto simp: storeStep_def split: if_splits)
  next
    case (Some h)
    show ?thesis
    proof (cases "keywordMatch rt ws h")
      case False
      with Some s r1 show ?thesis by (auto simp: storeStep_def)
    next
      case True
      let ?k = "cacheKey rt h p"
      show ?thesis
      proof (cases "cachedVictims w ?k")
        case (Some v)
        then obtain rec where rec: "metaFiles w ?k = Some rec" "truthy (victims rec)" "v = victims rec"
          by (auto simp: cachedVictims_def split: option.splits if_splits)
        from storeStep_hit [OF \<open>headline p = Some h\<close> True rec(1,2), of acc] s r1
        have e: "acc1 = acc @ [mkArticle p ?k (victims rec)]" "w1 = w" by simp_all
        from reduce_storeStep_keeps [OF rest] rec e have "metaFiles w' ?k = Some rec" by simp
        with Cons.prems(3) rec have "metaFiles t ?k = Some rec" by blast
        from storeStep_hit [OF \<open>headline p = Some h\<close> True this rec(2), of acc] e show ?thesis by simp
      next
        case None
        let ?a = "mkArticle p ?k (extractVictims rt (pageText rt (DetailPage (link p))))"
        from storeStep_miss [OF \<open>headline p = Some h\<close> True None, of acc] s r1
        have e: "acc1 = acc @ [?a]" "metaFiles w1 ?k = Some ?a" by auto
        from reduce_storeStep_prefix [OF rest] e have "?a \<in> set arts"
          by (auto simp: prefix_def)
        with Cons.prems(2) have tr: "truthy (victims ?a)" by blast
        from reduce_storeStep_keeps [OF rest e(2) tr] have "metaFiles w' ?k = Some ?a" .
        with Cons.prems(3) tr have "metaFiles t ?k = Some ?a" by blast
        from storeStep_hit [OF \<open>headline p = Some h\<close> True this tr, of acc] e
        show ?thesis by (simp add: mkArticle_def)
      qed
    qed
  qed
  with IH show ?case by simp
qed

lemma landing_uniform:
  "\<exists>r d. \<forall>w. reduce (landingStep rt) els acc w = (r, if d then w\<lparr>done_flag := True\<rparr> else w)"
proof (induction els arbitrary: acc)
  case Nil
  have "\<forall>w. reduce (landingStep rt) [] acc w = (Inr acc, if False then w\<lparr>done_flag := True\<rparr> else w)"
    by simp
  then show ?case by blast
next
  case (Cons el els)
  show ?case
  proof (cases "el_date el")
    case None
    then have "\<forall>w. reduce (landingStep rt) (el # els) acc w = (Inl TypeError, if False then w\<lparr>done_flag := True\<rparr> else w)"
      by (simp add: landingStep_def)
    then show ?thesis by blast
  next
    case (Some dd)
    show ?thesis
    proof (cases "relevant rt (getDate dd)")
      case True
      from Cons.IH [of "acc @ [candidate el (getDate dd)]"] obtain r d where
        "\<forall>w. reduce (landingStep rt) els (acc @ [candidate el (getDate dd)]) w = (r, if d then w\<lparr>done_flag := True\<rparr> else w)"
        by blast
      with Some True have "\<forall>w. reduce (landingStep rt) (el # els) acc w = (r, if d then w\<lparr>done_flag := True\<rparr> else w)"
        by (simp add: landingStep_def)
      then show ?thesis by blast
    next
      case False
      from Cons.IH [of acc] obtain r d where
        "\<forall>w. reduce (landingStep rt) els acc w = (r, if d then w\<lparr>done_flag := True\<rparr> else w)"
        by blast
      with Some False have "\<forall>w. reduce (landingStep rt) (el # els) acc w = (r, if True then w\<lparr>done_flag := True\<rparr> else w)"
        by (simp add: landingStep_def)
      then show ?thesis by blast
    qed
  qed
qed

lemma driver_invariant:
  assumes "p0 \<le> page" and "I w"
    and "getArticlesRecursively rt page acc source stop w = (r, w')"
    and "\<And>q w html w1. I w \<Longrightarrow> loadListing rt source q w = (html, w1) \<Longrightarrow> I w1"
    and "\<And>html w r w3. I w \<Longrightarrow> processPage rt html w = (r, w3) \<Longrightarrow> I w3"
    and "\<And>q html arts w. p0 \<le> q \<Longrightarrow> I w \<Longrightarrow> I (persistPage source q html arts w)"
    and "\<And>acc w. I w \<Longrightarrow> I (writeAll source acc w)"
  shows "I w'"
  using assms
proof (induction rt page acc source stop w rule: getArticlesRecursively.induct)
  case (1 rt page acc source stop w)
  note load = "1.prems"(4) and proc = "1.prems"(5) and pers = "1.prems"(6) and wall = "1.prems"(7)
  show ?case
  proof (cases "\<not> done_flag w \<and> page \<le> stop")
    case False
    then have "getArticlesRecursively rt page acc source stop w = (Inr acc, writeAll source acc w)"
      by (intro driver_stop) auto
    with "1.prems"(3) have "w' = writeAll source acc w" by simp
    then show ?thesis using "1.prems"(2) wall by simp
  next
    case True
    then have nd: "\<not> done_flag w" and le: "page \<le> stop" by simp_all
    obtain html w1 where l: "loadListing rt source page w = (html, w1)"
      by (cases "loadListing rt source page w")
    have I1: "I w1" using "1.prems"(2) l by (rule load)
    show ?thesis
    proof (cases "html = []")
      case True
      with l have "getArticlesRecursively rt page acc source stop w = (Inr acc, w1)"
        by (intro driver_empty [OF nd le]) simp
      with "1.prems"(3) I1 show ?thesis by simp
    next
      case False
      obtain r3 w3 where pp: "processPage rt html w1 = (r3, w3)" by (cases "processPage rt html w1")
      have I3: "I w3" using I1 pp by (rule proc)
      show ?thesis
      proof (cases r3)
        case (Inl e)
        with pp have "getArticlesRecursively rt page acc source stop w = (Inl e, w3)"
          by (intro driver_error [OF nd le l False]) simp
        with "1.prems"(3) I3 show ?thesis by simp
      next
        case (Inr arts)
        let ?w4 = "persistPage source page html arts w3"
        from pp Inr have "getArticlesRecursively rt page acc source stop w
                = getArticlesRecursively rt (page + 1) (acc @ arts) source stop ?w4"
          by (intro driver_next [OF nd le l False]) simp
        with "1.prems"(3) have rec: "getArticlesRecursively rt (page + 1) (acc @ arts) source stop ?w4 = (r, w')"
          by simp
        have I4: "I ?w4" using "1.prems"(1) I3 by (rule pers)
        from "1.prems"(1) have "p0 \<le> page + 1" by simp
        from "1.IH" [OF True l [symmetric] False pp [symmetric] Inr this I4 rec load proc pers wall]
        show ?thesis .
      qed
    qed
  qed
qed

lemma processPage_keeps:
  assumes "processPage rt html w = (r, w')" and "metaFiles w k = Some rec" and "truthy (victims rec)"
  shows "metaFiles w' k = Some rec"
proof -
  obtain r1 w1 where g: "getDciLinksFromLanding rt html w = (r1, w1)"
    by (cases "getDciLinksFromLanding rt html w")
  from getDciLinksFromLanding_frame [OF g] assms(2) have m1: "metaFiles w1 k = Some rec" by simp
  show ?thesis
  proof (cases r1)
    case (Inl e)
    with g assms(1) have "w' = w1" by (simp add: processPage_def)
    with m1 show ?thesis by simp
  next
    case (Inr links)
    with g assms(1) have "reduce (storeStep rt keywordList) links [] w1 = (r, w')"
      by (simp add: processPage_def getAndStoreArticlesFromLinks_def)
    then show ?thesis using m1 assms(3) by (rule reduce_storeStep_keeps)
  qed
qed

lemma driver_keeps:
  assumes "getArticlesRecursively rt page acc source stop w = (r, w')"
    and "metaFiles w k = Some rec" and "truthy (victims rec)"
  shows "metaFiles w' k = Some rec"
proof (rule driver_invariant [where I = "\<lambda>v. metaFiles v k = Some rec" and ?p0.0 = page, OF _ assms(2) assms(1)])
  show "page \<le> page" by simp
  show "\<And>q w html w1. metaFiles w k = Some rec \<Longrightarrow> loadListing rt source q w = (html, w1) \<Longrightarrow> metaFiles w1 k = Some rec"
    by (auto dest: loadListing_frame)
  show "\<And>html w r w3. metaFiles w k = Some rec \<Longrightarrow> processPage rt html w = (r, w3) \<Longrightarrow> metaFiles w3 k = Some rec"
    using processPage_keeps assms(3) by blast
  show "\<And>q html arts w. page \<le> q \<Longrightarrow> metaFiles w k = Some rec \<Longrightarrow> metaFiles (persistPage source q html arts w) k = Some rec"
    by (simp add: persistPage_def)
  show "\<And>acc w. metaFiles w k = Some rec \<Longrightarrow> metaFiles (writeAll source acc w) k = Some rec"
    by (simp add: writeAll_def)
qed

lemma driver_keeps_pages:
  assumes "getArticlesRecursively rt page acc source stop w = (r, w')" and "n < page"
  shows "listingFiles w' (listingFile source n) = listingFiles w (listingFile source n)
         \<and> pageJson w' (domainOf source, n) = pageJson w (domainOf source, n)"
proof (rule driver_invariant [where I = "\<lambda>v. listingFiles v (listingFile source n) = listingFiles w (listingFile source n)
         \<and> pageJson v (domainOf source, n) = pageJson w (domainOf source, n)" and ?p0.0 = page, OF _ _ assms(1)])
  fix q html arts and v :: world
  assume "page \<le> q"
  with assms(2) have "q \<noteq> n" by simp
  then have k: "listingFile source q \<noteq> listingFile source n" "(domainOf source, q) \<noteq> (domainOf source, n)"
    by (simp_all add: listingFile_def)
  assume "listingFiles v (listingFile source n) = listingFiles w (listingFile source n)
         \<and> pageJson v (domainOf source, n) = pageJson w (domainOf source, n)"
  with k show "listingFiles (persistPage source q html arts v) (listingFile source n) = listingFiles w (listingFile source n)
         \<and> pageJson (persistPage source q html arts v) (domainOf source, n) = pageJson w (domainOf source, n)"
    by (simp add: persistPage_def)
next
  fix q html w1 and v :: world
  assume "listingFiles v (listingFile source n) = listingFiles w (listingFile source n)
         \<and> pageJson v (domainOf source, n) = pageJson w (domainOf source, n)"
    and "loadListing rt source q v = (html, w1)"
  then show "listingFiles w1 (listingFile source n) = listingFiles w (listingFile source n)
         \<and> pageJson w1 (domainOf source, n) = pageJson w (domainOf source, n)"
    by (auto dest: loadListing_frame)
next
  fix html r w3 and v :: world
  assume "listingFiles v (listingFile source n) = listingFiles w (listingFile source n)
         \<and> pageJson v (domainOf source, n) = pageJson w (domainOf source, n)"
    and "processPage rt html v = (r, w3)"
  then show "listingFiles w3 (listingFile source n) = listingFiles w (listingFile source n)
         \<and> pageJson w3 (domainOf source, n) = pageJson w (domainOf source, n)"
    by (auto dest: processPage_frame)
qed (simp_all add: writeAll_def)

lemma driver_prefix:
  "getArticlesRecursively rt page acc source stop w = (Inr out, w') \<Longrightarrow> prefix acc out"
proof (induction rt page acc source stop w rule: getArticlesRecursively.induct)
  case (1 rt page acc source stop w)
  show ?case
  proof (cases "\<not> done_flag w \<and> page \<le> stop")
    case False
    then have "getArticlesRecursively rt page acc source stop w = (Inr acc, writeAll source acc w)"
      by (intro driver_stop) auto
    with "1.prems" show ?thesis by simp
  next
    case True
    then have nd: "\<not> done_flag w" and le: "page \<le> stop" by simp_all
    obtain html w1 where l: "loadListing rt source page w = (html, w1)"
      by (cases "loadListing rt source page w")
    show ?thesis
    proof (cases "html = []")
      case True
      with l have "getArticlesRecursively rt page acc source stop w = (Inr acc, w1)"
        by (intro driver_empty [OF nd le]) simp
      with "1.prems" show ?thesis by simp
    next
      case False
      obtain r3 w3 where pp: "processPage rt html w1 = (r3, w3)" by (cases "processPage rt html w1")
      show ?thesis
      proof (cases r3)
        case (Inl e)
        with pp have "getArticlesRecursively rt page acc source stop w = (Inl e, w3)"
          by (intro driver_error [OF nd le l False]) simp
        with "1.prems" show ?thesis by simp
      next
        case (Inr arts)
        let ?w4 = "persistPage source page html arts w3"
        from pp Inr have "getArticlesRecursively rt page acc source stop w
                = getArticlesRecursively rt (page + 1) (acc @ arts) source stop ?w4"
          by (intro driver_next [OF nd le l False]) simp
        with "1.prems" have "getArticlesRecursively rt (page + 1) (acc @ arts) source stop ?w4 = (Inr out, w')"
          by simp
        from "1.IH" [OF True l [symmetric] False pp [symmetric] Inr this]
        have "prefix (acc @ arts) out" .
        then show ?thesis by (rule append_prefixD)
      qed
    qed
  qed
qed

lemma loadListing_same:
  "listingFiles t = listingFiles w \<Longrightarrow> fst (loadListing rt source page t) = fst (loadListing rt source page w)"
  by (simp add: loadListing_def fetchHTML_def Let_def split: option.splits)

lemma loadListing_detail:
  "loadListing rt source page t = (html, t1) \<Longrightarrow> detailFetches t1 = detailFetches t"
  by (auto simp: loadListing_def fetchHTML_def detailFetches_def Let_def split: option.splits)

lemma loadListing_cached:
  "listingFiles t (listingFile source page) = Some html \<Longrightarrow>
   loadListing rt source page t = (html, t\<lparr>trace := trace t @ [PageStart page]\<rparr>)"
  by (simp add: loadListing_def Let_def)

lemma processPage_replay:
  assumes pp: "processPage rt html w1 = (Inr arts, w3)"
    and tr: "\<forall>a\<in>set arts. truthy (victims a)"
    and ext: "\<forall>k rec. metaFiles w3 k = Some rec \<and> truthy (victims rec) \<longrightarrow> metaFiles t1 k = Some rec"
  shows "\<exists>t2. processPage rt html t1 = (Inr arts, t2) \<and> sameFiles t2 t1 \<and> trace t2 = trace t1
              \<and> (done_flag t1 = done_flag w1 \<longrightarrow> done_flag t2 = done_flag w3)"
proof -
  from landing_uniform [of rt "featured rt html" "[]"] obtain r0 d0 where
    u: "\<And>v. getDciLinksFromLanding rt html v = (r0, if d0 then v\<lparr>done_flag := True\<rparr> else v)"
    unfolding getDciLinksFromLanding_def by blast
  let ?w2 = "if d0 then w1\<lparr>done_flag := True\<rparr> else w1"
  let ?t2 = "if d0 then t1\<lparr>done_flag := True\<rparr> else t1"
  from pp u [of w1] obtain links where r0: "r0 = Inr links"
    by (cases r0) (auto simp: processPage_def)
  from pp u [of w1] r0 have s: "reduce (storeStep rt keywordList) links [] ?w2 = (Inr arts, w3)"
    by (simp add: processPage_def getAndStoreArticlesFromLinks_def)
  have "metaFiles ?t2 = metaFiles t1" by simp
  with ext have ext2: "\<forall>k rec. metaFiles w3 k = Some rec \<and> truthy (victims rec) \<longrightarrow> metaFiles ?t2 k = Some rec"
    by simp
  from reduce_storeStep_replay [OF s tr ext2]
  have "reduce (storeStep rt keywordList) links [] ?t2 = (Inr arts, ?t2)" .
  with u [of t1] r0 have p2: "processPage rt html t1 = (Inr arts, ?t2)"
    by (simp add: processPage_def getAndStoreArticlesFromLinks_def)
  have f: "sameFiles ?t2 t1" "trace ?t2 = trace t1" by (simp_all add: sameFiles_def)
  from reduce_storeStep_frame [OF s] have "done_flag w3 = done_flag ?w2" by simp
  then have d: "done_flag t1 = done_flag w1 \<longrightarrow> done_flag ?t2 = done_flag w3" by simp
  from p2 f d show ?thesis by blast
qed

lemma driver_replay:
  "getArticlesRecursively rt page acc source stop w = (Inr out, w') \<Longrightarrow>
   \<forall>a\<in>set out. truthy (victims a) \<Longrightarrow> done_flag t = done_flag w \<Longrightarrow> sameFiles t w' \<Longrightarrow>
   \<exists>t'. getArticlesRecursively rt page acc source stop t = (Inr out, t') \<and> sameFiles t' w'
        \<and> detailFetches t' = detailFetches t"
proof (induction rt page acc source stop w arbitrary: t rule: getArticlesRecursively.induct)
  case (1 rt page acc source stop w)
  note run = "1.prems"(1) and tr = "1.prems"(2) and dn = "1.prems"(3) and sf = "1.prems"(4)
  show ?case
  proof (cases "\<not> done_flag w \<and> page \<le> stop")
    case False
    then have "getArticlesRecursively rt page acc source stop w = (Inr acc, writeAll source acc w)"
      by (intro driver_stop) auto
    with run have o: "out = acc" "w' = writeAll source acc w" by auto
    from False dn have "getArticlesRecursively rt page acc source stop t = (Inr acc, writeAll source acc t)"
      by (intro driver_stop) auto
    moreover have "sameFiles (writeAll source acc t) w'"
      using sf o by (simp add: sameFiles_def writeAll_def)
    moreover have "detailFetches (writeAll source acc t) = detailFetches t"
      by (simp add: writeAll_def detailFetches_def)
    ultimately show ?thesis using o by blast
  next
    case True
    then have nd: "\<not> done_flag w" and le: "page \<le> stop" by simp_all
    from nd dn have ndt: "\<not> done_flag t" by simp
    obtain html w1 where l: "loadListing rt source page w = (html, w1)"
      by (cases "loadListing rt source page w")
    note f1 = loadListing_frame [OF l]
    show ?thesis
    proof (cases "html = []")
      case True
      with l have "getArticlesRecursively rt page acc source stop w = (Inr acc, w1)"
        by (intro driver_empty [OF nd le]) simp
      with run have o: "out = acc" "w' = w1" by auto
      obtain ht t1 where lt: "loadListing rt source page t = (ht, t1)"
        by (cases "loadListing rt source page t")
      have "listingFiles t = listingFiles w" using sf o f1 by (simp add: sameFiles_def)
      from loadListing_same [OF this, of rt source page] l lt True have "ht = []" by simp
      with lt have "getArticlesRecursively rt page acc source stop t = (Inr acc, t1)"
        by (intro driver_empty [OF ndt le]) simp
      moreover have "sameFiles t1 w'"
        using loadListing_frame [OF lt] sf by (simp add: sameFiles_def)
      moreover have "detailFetches t1 = detailFetches t" using lt by (rule loadListing_detail)
      ultimately show ?thesis using o by blast
    next
      case False
      obtain r3 w3 where pp0: "processPage rt html w1 = (r3, w3)" by (cases "processPage rt html w1")
      from run obtain arts where r3: "r3 = Inr arts"
        using driver_error [OF nd le l False, of _ w3 acc] pp0 by (cases r3) auto
      with pp0 have pp: "processPage rt html w1 = (Inr arts, w3)" by simp
      let ?w4 = "persistPage source page html arts w3"
      from pp have "getArticlesRecursively rt page acc source stop w
                = getArticlesRecursively rt (page + 1) (acc @ arts) source stop ?w4"
        by (intro driver_next [OF nd le l False])
      with run have rec: "getArticlesRecursively rt (page + 1) (acc @ arts) source stop ?w4 = (Inr out, w')"
        by simp
      from driver_keeps_pages [OF rec, of page]
      have kept: "listingFiles w' (listingFile source page) = Some html"
        "pageJson w' (domainOf source, page) = Some arts"
        by (simp_all add: persistPage_def)
      from driver_prefix [OF rec] have "set arts \<subseteq> set out" by (auto simp: prefix_def)
      with tr have tra: "\<forall>a\<in>set arts. truthy (victims a)" by blast
      let ?t1 = "t\<lparr>trace := trace t @ [PageStart page]\<rparr>"
      have "listingFiles t (listingFile source page) = Some html"
        using kept sf by (simp add: sameFiles_def)
      then have lt: "loadListing rt source page t = (html, ?t1)" by (rule loadListing_cached)
      have ext: "\<forall>k rec. metaFiles w3 k = Some rec \<and> truthy (victims rec) \<longrightarrow> metaFiles ?t1 k = Some rec"
      proof (intro allI impI)
        fix k rec assume a: "metaFiles w3 k = Some rec \<and> truthy (victims rec)"
        then have "metaFiles ?w4 k = Some rec" by (simp add: persistPage_def)
        from driver_keeps [OF rec this] a have "metaFiles w' k = Some rec" by simp
        then show "metaFiles ?t1 k = Some rec" using sf by (simp add: sameFiles_def)
      qed
      from processPage_replay [OF pp tra ext] obtain t2 where
        p2: "processPage rt html ?t1 = (Inr arts, t2)" and s2: "sameFiles t2 ?t1"
        and tr2: "trace t2 = trace ?t1"
        and d2: "done_flag ?t1 = done_flag w1 \<longrightarrow> done_flag t2 = done_flag w3" by blast
      let ?t4 = "persistPage source page html arts t2"
      from p2 have next_t: "getArticlesRecursively rt page acc source stop t
                = getArticlesRecursively rt (page + 1) (acc @ arts) source stop ?t4"
        by (intro driver_next [OF ndt le lt False])
      have d4: "done_flag ?t4 = done_flag ?w4"
        using d2 dn f1 by (simp add: persistPage_def)
      have s4: "sameFiles ?t4 w'"
        using s2 sf kept by (auto simp: sameFiles_def persistPage_def)
      from "1.IH" [OF True l [symmetric] False pp [symmetric] refl rec tr d4 s4]
      obtain t' where t': "getArticlesRecursively rt (page + 1) (acc @ arts) source stop ?t4 = (Inr out, t')"
        "sameFiles t' w'" "detailFetches t' = detailFetches ?t4" by blast
      have "detailFetches ?t4 = detailFetches t"
        using tr2 by (simp add: detailFetches_def persistPage_def)
      with t' next_t show ?thesis by simp
    qed
  qed
qed

lemma one_page_run:
  assumes "\<not> done_flag w" and "1 \<le> stop"
    and l: "loadListing rt source 1 w = (html, w1)" and ne: "html \<noteq> []"
    and d: "dated (featured rt html)" and h: "hasPastCutoff rt (featured rt html)"
    and s: "reduce (storeStep rt keywordList) (retained rt (featured rt html)) [] (w1\<lparr>done_flag := True\<rparr>) = (Inr arts, w3)"
  shows "getArticlesRecursively rt 1 [] source stop w
           = (Inr arts, writeAll source arts (persistPage source 1 html arts w3))"
proof -
  have pp: "processPage rt html w1 = (Inr arts, w3)"
    using s h by (simp add: processPage_def getDciLinksFromLanding_dated [OF d] getAndStoreArticlesFromLinks_def)
  have d3: "done_flag w3" using reduce_storeStep_frame [OF s] by simp
  have "getArticlesRecursively rt 1 [] source stop w
      = getArticlesRecursively rt (1 + 1) ([] @ arts) source stop (persistPage source 1 html arts w3)"
    using assms(1,2) l ne pp by (rule driver_next)
  also have "\<dots> = (Inr ([] @ arts), writeAll source ([] @ arts) (persistPage source 1 html arts w3))"
    by (rule driver_stop) (simp add: persistPage_def d3)
  finally show ?thesis by simp
qed

section \<open>Facts about the examples\<close>

lemma example_afterCutoff:
  "afterCutoff (exampleRuntime net listing ai) boyKilled"
  "afterCutoff (exampleRuntime net listing ai) councilMeeting"
  "\<not> afterCutoff (exampleRuntime net listing ai) childShot"
  "\<not> afterCutoff (exampleRuntime net listing ai) villageAttack"
  by (simp_all add: afterCutoff_def summaryDate_def relevant_def page_defs getDate_eval date_eval
        exampleRuntime_def)

lemma example_summaryDate:
  "summaryDate boyKilled = js ''January 05, 2024''"
  "summaryDate councilMeeting = js ''January 03, 2024''"
  by (simp_all add: summaryDate_def page_defs getDate_eval)

lemma example_featured:
  "featured (exampleRuntime net (exampleListing els) ai) (js ''listing 1'') = els"
  by (simp add: exampleRuntime_def exampleListing_def)

lemma example_loadListing:
  "loadListing (exampleRuntime exampleNet listing ai) root 1 emptyWorld = (js ''listing 1'', afterListing)"
  by (simp add: loadListing_def fetchHTML_def pageText_def emptyWorld_def afterListing_def
        exampleRuntime_def exampleNet_def js_def)

lemma example_keywordMatch:
  "keywordMatch (exampleRuntime net listing ai) keywordList (js ''Boy killed in strike'')"
  "\<not> keywordMatch (exampleRuntime net listing ai) keywordList (js ''Council meeting schedule'')"
  by (simp_all add: keywordMatch_def exampleRuntime_def keywordList_def js_def asciiLower_def)


lemma example_headline: "headline (candidate boyKilled d) = Some (js ''Boy killed in strike'')"
  by (simp add: candidate_def page_defs js_def trim_def isWhiteSpace_def)

lemma example_dir:
  "dateDir (exampleRuntime net listing ai) (js ''January 05, 2024'') = js ''2024/January''"
  "dateDir (exampleRuntime net listing ai) (js ''January 07, 2024'') = js ''2024/January''"
  by (simp_all add: exampleRuntime_def yearMonthDir_def longDate_def split_def monthNames_def
        digitChar_def js_def char_defs)

lemma example_headline_again: "headline (candidate boyKilledAgain d) = Some (js ''Boy killed in strike'')"
  by (simp add: candidate_def boyKilledAgain_def summary_def js_def trim_def isWhiteSpace_def)

lemma example_links:
  "link (candidate boyKilled d) = apex @ js ''/boy_killed''"
  "link (candidate boyKilledAgain d) = apex @ js ''/boy_killed_update''"
  by (simp_all add: candidate_def boyKilledAgain_def page_defs hrefText_def)

lemma example_extract:
  "extractVictims (exampleRuntime net listing echoService) html = Some (JArr [JStr (clean html)])"
  by (simp add: extractVictims_def getPageAndConvertToData_def callClosedAi_def exampleRuntime_def
        echoService_def)

lemma example_pageText:
  "pageText (exampleRuntime exampleNet listing ai) (DetailPage l) = js ''text of '' @ l"
  by (simp add: pageText_def exampleRuntime_def exampleNet_def js_def)

lemma example_retained:
  "retained (exampleRuntime net (exampleListing examplePage) ai) examplePage
     = [firstCandidate, candidate councilMeeting (js ''January 03, 2024'')]"
  by (simp add: retained_def examplePage_def example_afterCutoff example_summaryDate firstCandidate_def)

lemma example_page_facts:
  "dated (featured (exampleRuntime net (exampleListing examplePage) ai) (js ''listing 1''))"
  "hasPastCutoff (exampleRuntime net (exampleListing examplePage) ai)
     (featured (exampleRuntime net (exampleListing examplePage) ai) (js ''listing 1''))"
proof -
  show "dated (featured (exampleRuntime net (exampleListing examplePage) ai) (js ''listing 1''))"
    unfolding example_featured by (simp add: dated_def page_defs)
  show "hasPastCutoff (exampleRuntime net (exampleListing examplePage) ai)
     (featured (exampleRuntime net (exampleListing examplePage) ai) (js ''listing 1''))"
    unfolding example_featured by (simp add: hasPastCutoff_def examplePage_def example_afterCutoff)
qed

lemma candidate_date: "date (candidate el d) = d"
  by (simp add: candidate_def)

lemma example_firstCandidate:
  "headline firstCandidate = Some (js ''Boy killed in strike'')"
  "link firstCandidate = firstLink"
  "cacheKey (exampleRuntime net listing ai) (js ''Boy killed in strike'') firstCandidate = firstKey"
  by (simp_all add: firstCandidate_def example_headline example_links firstLink_def cacheKey_def
        firstKey_def candidate_date example_dir)

lemma example_secondCandidate:
  "headline secondCandidate = Some (js ''Boy killed in strike'')"
  "link secondCandidate = secondLink"
  "cacheKey (exampleRuntime net listing ai) (js ''Boy killed in strike'') secondCandidate = firstKey"
  by (simp_all add: secondCandidate_def example_headline_again example_links secondLink_def
        cacheKey_def firstKey_def candidate_date example_dir)

lemma example_council_skipped:
  "storeStep (exampleRuntime net listing ai) keywordList acc (candidate councilMeeting d) w = (Inr acc, w)"
proof -
  have "headline (candidate councilMeeting d) = Some (js ''Council meeting schedule'')"
    by (simp add: candidate_def page_defs js_def trim_def isWhiteSpace_def)
  then show ?thesis by (simp add: storeStep_def example_keywordMatch)
qed

lemma example_page_miss:
  assumes "cachedVictims w firstKey = None"
  shows "reduce (storeStep (exampleRuntime exampleNet listing ai) keywordList)
           [firstCandidate, candidate councilMeeting (js ''January 03, 2024'')] [] w
         = (Inr [mkArticle firstCandidate firstKey
                   (extractVictims (exampleRuntime exampleNet listing ai) (js ''text of '' @ firstLink))],
            w\<lparr>trace := trace w @ [Fetch (DetailPage firstLink)],
              htmlFiles := (htmlFiles w)(firstKey \<mapsto> js ''text of '' @ firstLink),
              metaFiles := (metaFiles w)(firstKey \<mapsto> mkArticle firstCandidate firstKey
                   (extractVictims (exampleRuntime exampleNet listing ai) (js ''text of '' @ firstLink)))\<rparr>)"
proof -
  let ?rt = "exampleRuntime exampleNet listing ai"
  have c: "cachedVictims w (cacheKey ?rt (js ''Boy killed in strike'') firstCandidate) = None"
    using assms by (simp add: example_firstCandidate)
  note m = storeStep_miss [OF example_firstCandidate(1) example_keywordMatch(1) c, of "[]"]
  show ?thesis
    by (simp add: m example_council_skipped example_firstCandidate example_pageText)
qed

lemma example_first_run:
  "runPipeline (exampleRuntime exampleNet (exampleListing examplePage) ai) root 3 emptyWorld
     = (Inr [firstArticle (exampleRuntime exampleNet (exampleListing examplePage) ai)],
        afterFirstRun (exampleRuntime exampleNet (exampleListing examplePage) ai))"
proof -
  let ?rt = "exampleRuntime exampleNet (exampleListing examplePage) ai"
  have f: "freshProcess emptyWorld = emptyWorld" by (simp add: freshProcess_def emptyWorld_def)
  have c: "cachedVictims (afterListing\<lparr>done_flag := True\<rparr>) firstKey = None"
    by (simp add: cachedVictims_def afterListing_def emptyWorld_def)
  have s: "reduce (storeStep ?rt keywordList) (retained ?rt (featured ?rt (js ''listing 1''))) []
             (afterListing\<lparr>done_flag := True\<rparr>)
           = (Inr [firstArticle ?rt],
              afterListing
               \<lparr>done_flag := True,
                trace := trace afterListing @ [Fetch (DetailPage firstLink)],
                htmlFiles := (htmlFiles afterListing)(firstKey \<mapsto> js ''text of '' @ firstLink),
                metaFiles := (metaFiles afterListing)(firstKey \<mapsto> firstArticle ?rt)\<rparr>)"
    unfolding example_featured example_retained example_page_miss [OF c]
    by (simp add: firstArticle_def)
  have "getArticlesRecursively ?rt 1 [] root 3 emptyWorld = (Inr [firstArticle ?rt], afterFirstRun ?rt)"
    unfolding afterFirstRun_def
    by (rule one_page_run [OF _ _ example_loadListing _ example_page_facts s])
       (simp_all add: emptyWorld_def js_def)
  then show ?thesis by (simp add: runPipeline_def f)
qed

lemma example_second_listing:
  "loadListing rt root 1 (freshProcess (afterFirstRun rt'))
     = (js ''listing 1'', (freshProcess (afterFirstRun rt'))\<lparr>trace := [PageStart 1]\<rparr>)"
proof -
  have "listingFiles (freshProcess (afterFirstRun rt')) (listingFile root 1) = Some (js ''listing 1'')"
    by (simp add: freshProcess_def afterFirstRun_def writeAll_def persistPage_def)
  from loadListing_cached [OF this, of rt] show ?thesis by (simp add: freshProcess_def)
qed

section \<open>The cache key is the rolling hash\<close>

lemma toInt32_mod: "toInt32 x mod 2 ^ 32 = x mod 2 ^ 32"
proof -
  have "toInt32 x = (x + 2 ^ 31) mod 2 ^ 32 - 2 ^ 31" by (simp add: toInt32_def)
  then have "toInt32 x mod 2 ^ 32 = ((x + 2 ^ 31) mod 2 ^ 32 - 2 ^ 31) mod 2 ^ 32" by simp
  also have "\<dots> = (x + 2 ^ 31 - 2 ^ 31) mod 2 ^ 32" by (rule mod_diff_left_eq)
  finally show ?thesis by simp
qed

lemma toInt32_cong:
  assumes "x mod 2 ^ 32 = y mod 2 ^ 32"
  shows "toInt32 x = toInt32 y"
proof -
  have "(x + 2 ^ 31) mod 2 ^ 32 = (y + 2 ^ 31) mod 2 ^ 32"
    using assms by (rule mod_add_cong) simp
  then show ?thesis by (simp add: toInt32_def)
qed

lemma toInt32_range: "- (2 ^ 31) \<le> toInt32 x \<and> toInt32 x < 2 ^ 31"
proof -
  have "0 \<le> (x + 2 ^ 31) mod (2 ^ 32 :: int)" "(x + 2 ^ 31) mod (2 ^ 32 :: int) < 2 ^ 32"
    by simp_all
  then show ?thesis by (simp add: toInt32_def)
qed

lemma toInt32_idem: "toInt32 (toInt32 x) = toInt32 x"
  by (rule toInt32_cong) (rule toInt32_mod)

lemma hash_body_rolling: "hash_body h c = toInt32 (h * 31 + charCode c)"
proof -
  define h1 where "h1 = shiftLeft h 5 - h + charCode c"
  have "shiftLeft h 5 mod 2 ^ 32 = (h * 2 ^ 5) mod 2 ^ 32"
  proof -
    have "shiftLeft h 5 mod 2 ^ 32 = (toInt32 h * 2 ^ 5) mod 2 ^ 32"
      unfolding shiftLeft_def by (rule toInt32_mod)
    also have "\<dots> = (h * 2 ^ 5) mod 2 ^ 32"
      by (rule mod_mult_cong) (rule toInt32_mod, rule refl)
    finally show ?thesis .
  qed
  then have "(shiftLeft h 5 - h) mod 2 ^ 32 = (h * 2 ^ 5 - h) mod 2 ^ 32"
    by (rule mod_diff_cong) (rule refl)
  then have "(shiftLeft h 5 - h + charCode c) mod 2 ^ 32 = (h * 2 ^ 5 - h + charCode c) mod 2 ^ 32"
    by (rule mod_add_cong) (rule refl)
  moreover have "h * 2 ^ 5 - h + charCode c = h * 31 + charCode c" by simp
  ultimately have "(shiftLeft h 5 - h + charCode c) mod 2 ^ 32 = (h * 31 + charCode c) mod 2 ^ 32"
    by (simp only:)
  then have "h1 mod 2 ^ 32 = (h * 31 + charCode c) mod 2 ^ 32"
    by (simp only: h1_def)
  then have "toInt32 h1 = toInt32 (h * 31 + charCode c)" by (rule toInt32_cong)
  moreover have "bitAnd h1 h1 = toInt32 h1" by (simp add: bitAnd_def toInt32_idem)
  ultimately show ?thesis by (simp add: hash_body_def h1_def Let_def)
qed

lemma foldl_hash_body_range:
  "- (2 ^ 31) \<le> h \<and> h < 2 ^ 31 \<Longrightarrow>
   - (2 ^ 31) \<le> foldl hash_body h str \<and> foldl hash_body h str < 2 ^ 31"
proof (induction str arbitrary: h)
  case Nil
  then show ?case by simp
next
  case (Cons c cs)
  have "- (2 ^ 31) \<le> hash_body h c \<and> hash_body h c < 2 ^ 31"
    unfolding hash_body_rolling by (rule toInt32_range)
  then show ?case using Cons.IH by simp
qed

text \<open>
  Claim C4. For every headline, \<open>hash\<close> is the rolling hash that starts at 0 and
  replaces the value \<open>h\<close> by \<open>h * 31 + charCode\<close>, truncated to a 32-bit signed
  integer, at every code unit; the result lies between \<open>-2^31\<close> and \<open>2^31 - 1\<close>.
  The function reads the headline and nothing else, so equal headlines have equal keys.
\<close>

theorem hash_is_rolling31:
  "hash str = rolling31 str \<and> - (2 ^ 31) \<le> hash str \<and> hash str < 2 ^ 31"
proof -
  have "hash_body = (\<lambda>h c. toInt32 (h * 31 + charCode c))"
    by (intro ext) (rule hash_body_rolling)
  then have "hash str = rolling31 str" by (simp add: hash_def rolling31_def)
  moreover have "- (2 ^ 31) \<le> hash str \<and> hash str < 2 ^ 31"
    unfolding hash_def by (rule foldl_hash_body_range) simp
  ultimately show ?thesis by simp
qed

section \<open>Name variations contain the full name\<close>

lemma splitWhere_none: "\<forall>x\<in>set xs. \<not> P x \<Longrightarrow> splitWhere P xs = [xs]"
  by (induction xs) auto

text \<open>
  Claim C10. For every name, \<open>getNameVariations\<close> returns a list that is not empty and
  contains the name itself; for a name without a space it returns the list of that name
  alone.
\<close>

theorem getNameVariations_full:
  "getNameVariations fullName \<noteq> [] \<and> fullName \<in> set (getNameVariations fullName)
   \<and> (space \<notin> set fullName \<longrightarrow> getNameVariations fullName = [fullName])"
proof -
  have "space \<notin> set fullName \<Longrightarrow> split space fullName = [fullName]"
    unfolding split_def by (rule splitWhere_none) auto
  then show ?thesis by (auto simp: getNameVariations_def Let_def)
qed

theorem getNameVariations_full_witness:
  "space \<notin> set (js ''Ahmed'') \<and> getNameVariations (js ''Ahmed'') = [js ''Ahmed'']
   \<and> js ''Ahmed'' \<in> set (getNameVariations (js ''Ahmed''))"
  using getNameVariations_full [of "js ''Ahmed''"] by (simp add: js_def space_def)

section \<open>The date rule of \<open>getDate\<close>\<close>

text \<open>
  Claim C6, as stated, fails. With two hyphens on the line the match runs to the last
  one, not to the first separator; and a run of white space is deleted, not collapsed to
  one space, so words that were two spaces apart are joined.
\<close>

theorem getDate_not_first_separator:
  "getDate (js ''January 20, 2024 - Location: West Bank - Issue: News'')
     \<noteq> uptoFirstSeparator (js ''January 20, 2024 - Location: West Bank - Issue: News'')
   \<and> getDate (js ''January 20, 2024 - Location: West Bank - Issue: News'')
     = js ''January 20, 2024 - Location: West Bank''
   \<and> getDate (js ''January  20, 2024 - Location'') = js ''January20, 2024''"
  by (simp add: getDate_eval uptoFirstSeparator_def)

text \<open>
  Claim C6, amended. \<open>getDate\<close> deletes every run of two or more white-space
  characters, takes the first line that contains a hyphen up to the last hyphen of that
  line, and trims it; without a hyphen the result is empty. For the date field
  \<open>January 20, 2024 \<newline> - Location: West Bank\<close> the result is the text
  \<open>January 20, 2024\<close>, which is the calendar date 2024-01-20; the variant under
  \<open>sites/\<close>, which deletes commas as well, gives \<open>January 20 2024\<close>, the same date.
\<close>

theorem getDate_rule:
  "getDate dateString =
     (case firstHyphenLine (replaceRuns False [] [] dateString) of
        None \<Rightarrow> []
      | Some line \<Rightarrow> trim (uptoLastHyphen line))
   \<and> getDate (js ''January 20, 2024 \<newline> - Location: West Bank'') = js ''January 20, 2024''
   \<and> longDate (js ''January 20, 2024'') = Some (2024, 1, 20)
   \<and> getDate_site (js ''January 20, 2024 \<newline> - Location: West Bank'') = js ''January 20 2024''
   \<and> longDate (js ''January 20 2024'') = Some (2024, 1, 20)"
proof -
  have "getDate dateString =
     (case firstHyphenLine (replaceRuns False [] [] dateString) of
        None \<Rightarrow> []
      | Some line \<Rightarrow> trim (uptoLastHyphen line))"
    by (simp add: getDate_def exec_eq split: option.splits)
  moreover have "getDate (js ''January 20, 2024 \<newline> - Location: West Bank'') = js ''January 20, 2024''"
    by (simp add: getDate_eval)
  moreover have "longDate (js ''January 20, 2024'') = Some (2024, 1, 20)"
    by (simp add: longDate_def js_def split_def char_defs monthNames_def)
  moreover have "getDate_site (js ''January 20, 2024 \<newline> - Location: West Bank'') = js ''January 20 2024''"
    by (simp add: getDate_site_def getDate_eval)
  moreover have "longDate (js ''January 20 2024'') = Some (2024, 1, 20)"
    by (simp add: longDate_def js_def split_def char_defs monthNames_def)
  ultimately show ?thesis by simp
qed

section \<open>The stop rule\<close>

lemma processPage_sets_flag:
  assumes "dated (featured rt html)" "hasPastCutoff rt (featured rt html)"
    and "processPage rt html w = (r, w3)"
  shows "done_flag w3"
proof -
  from assms(1,2) have g: "getDciLinksFromLanding rt html w = (Inr (retained rt (featured rt html)), w\<lparr>done_flag := True\<rparr>)"
    by (simp add: getDciLinksFromLanding_dated)
  with assms(3) have "reduce (storeStep rt keywordList) (retained rt (featured rt html)) [] (w\<lparr>done_flag := True\<rparr>) = (r, w3)"
    by (simp add: processPage_def getAndStoreArticlesFromLinks_def)
  from reduce_storeStep_frame [OF this] show ?thesis by simp
qed

lemma stops_after_page:
  assumes "dated (featured rt html)" "hasPastCutoff rt (featured rt html)"
    and nd: "\<not> done_flag w0" and le: "page \<le> stop"
    and l: "loadListing rt source page w0 = (html, w)" and ne: "html \<noteq> []"
  shows "pagesStarted (snd (getArticlesRecursively rt page acc source stop w0)) = pagesStarted w0 @ [page]
         \<and> done_flag (snd (getArticlesRecursively rt page acc source stop w0))"
proof -
  obtain r w3 where pp: "processPage rt html w = (r, w3)" by (cases "processPage rt html w")
  have d3: "done_flag w3" using assms(1,2) pp by (rule processPage_sets_flag)
  have p3: "pagesStarted w3 = pagesStarted w0 @ [page]"
    using processPage_frame [OF pp] loadListing_frame [OF l] by simp
  show ?thesis
  proof (cases r)
    case (Inl e)
    with pp have "getArticlesRecursively rt page acc source stop w0 = (Inl e, w3)"
      by (intro driver_error [OF nd le l ne]) simp
    with d3 p3 show ?thesis by simp
  next
    case (Inr arts)
    let ?w4 = "persistPage source page html arts w3"
    from pp Inr have "getArticlesRecursively rt page acc source stop w0
        = getArticlesRecursively rt (page + 1) (acc @ arts) source stop ?w4"
      by (intro driver_next [OF nd le l ne]) simp
    moreover have "done_flag ?w4" using d3 by (simp add: persistPage_def)
    then have "getArticlesRecursively rt (page + 1) (acc @ arts) source stop ?w4
        = (Inr (acc @ arts), writeAll source (acc @ arts) ?w4)"
      by (intro driver_stop) simp
    ultimately show ?thesis using d3 p3 by (simp add: writeAll_def persistPage_def pagesStarted_def)
  qed
qed

text \<open>
  Claim C1, as stated, fails. On a page where a summary of 20 September 2023 stands
  between summaries of 5 and 3 January 2024, the summary of 3 January is still a
  candidate, although it comes after the first summary that is not after the cutoff.
\<close>

theorem later_summary_retained:
  "featured mixedSite (js ''listing 1'') = [boyKilled, childShot, councilMeeting]
   \<and> \<not> afterCutoff mixedSite childShot
   \<and> fst (getDciLinksFromLanding mixedSite (js ''listing 1'') emptyWorld)
       = Inr [candidate boyKilled (js ''January 05, 2024''),
              candidate councilMeeting (js ''January 03, 2024'')]"
proof -
  have f: "featured mixedSite (js ''listing 1'') = [boyKilled, childShot, councilMeeting]"
    by (simp add: mixedSite_def example_featured mixedPage_def)
  have d: "dated (featured mixedSite (js ''listing 1''))"
    unfolding f by (simp add: dated_def page_defs)
  have "retained mixedSite [boyKilled, childShot, councilMeeting]
       = [candidate boyKilled (js ''January 05, 2024''),
          candidate councilMeeting (js ''January 03, 2024'')]"
    by (simp add: retained_def mixedSite_def example_afterCutoff example_summaryDate)
  with getDciLinksFromLanding_dated [OF d, of emptyWorld] f
  show ?thesis by (simp add: mixedSite_def example_afterCutoff)
qed

text \<open>
  Claim C1, amended. On a page whose summaries all have a date element, each summary is
  judged by its own date: the candidates are exactly the summaries dated after the
  cutoff, in page order, wherever they stand, and the stop flag is set when some summary
  of the page is not after the cutoff. Where no summary after the first such one is
  after the cutoff (as on a page in descending order of date), the candidates are the
  summaries before it. Once a page has set the flag, the driver finishes that page and
  starts no further page.
\<close>

theorem stop_rule_by_date:
  assumes "dated (featured rt html)"
  shows "getDciLinksFromLanding rt html w =
           (Inr (retained rt (featured rt html)),
            if hasPastCutoff rt (featured rt html) then w\<lparr>done_flag := True\<rparr> else w)
         \<and> ((\<forall>el\<in>set (dropWhile (afterCutoff rt) (featured rt html)). \<not> afterCutoff rt el) \<longrightarrow>
              retained rt (featured rt html) =
                map (\<lambda>el. candidate el (summaryDate el)) (takeWhile (afterCutoff rt) (featured rt html)))
         \<and> (hasPastCutoff rt (featured rt html) \<and> \<not> done_flag w0 \<and> page \<le> stop
              \<and> loadListing rt source page w0 = (html, w) \<and> html \<noteq> [] \<longrightarrow>
              pagesStarted (snd (getArticlesRecursively rt page acc source stop w0)) = pagesStarted w0 @ [page]
              \<and> done_flag (snd (getArticlesRecursively rt page acc source stop w0)))"
proof (intro conjI impI)
  show "getDciLinksFromLanding rt html w =
           (Inr (retained rt (featured rt html)),
            if hasPastCutoff rt (featured rt html) then w\<lparr>done_flag := True\<rparr> else w)"
    using assms by (rule getDciLinksFromLanding_dated)
next
  assume "\<forall>el\<in>set (dropWhile (afterCutoff rt) (featured rt html)). \<not> afterCutoff rt el"
  then have "filter (afterCutoff rt) (featured rt html) = takeWhile (afterCutoff rt) (featured rt html)"
    by (rule filter_takeWhile_descending)
  then show "retained rt (featured rt html) =
                map (\<lambda>el. candidate el (summaryDate el)) (takeWhile (afterCutoff rt) (featured rt html))"
    by (simp add: retained_def)
next
  assume a: "hasPastCutoff rt (featured rt html) \<and> \<not> done_flag w0 \<and> page \<le> stop
              \<and> loadListing rt source page w0 = (html, w) \<and> html \<noteq> []"
  have s: "pagesStarted (snd (getArticlesRecursively rt page acc source stop w0)) = pagesStarted w0 @ [page]
         \<and> done_flag (snd (getArticlesRecursively rt page acc source stop w0))"
    by (rule stops_after_page [where w = w and html = html]) (use a assms in simp_all)
  from s show "pagesStarted (snd (getArticlesRecursively rt page acc source stop w0)) = pagesStarted w0 @ [page]" by simp
  from s show "done_flag (snd (getArticlesRecursively rt page acc source stop w0))" by simp
qed

theorem stop_rule_by_date_witness:
  "dated (featured specSite (js ''listing 1''))
   \<and> featured specSite (js ''listing 1'') = [boyKilled, councilMeeting, childShot, villageAttack]
   \<and> fst (getDciLinksFromLanding specSite (js ''listing 1'') afterListing)
       = Inr [candidate boyKilled (js ''January 05, 2024''),
              candidate councilMeeting (js ''January 03, 2024'')]
   \<and> retained specSite (featured specSite (js ''listing 1''))
       = map (\<lambda>el. candidate el (summaryDate el)) [boyKilled, councilMeeting]
   \<and> done_flag (snd (getDciLinksFromLanding specSite (js ''listing 1'') afterListing))
   \<and> pagesStarted (snd (getArticlesRecursively specSite 1 [] root 3 emptyWorld)) = [1]
   \<and> done_flag (snd (getArticlesRecursively specSite 1 [] root 3 emptyWorld))"
proof -
  have f: "featured specSite (js ''listing 1'') = [boyKilled, councilMeeting, childShot, villageAttack]"
    by (simp add: specSite_def example_featured examplePage_def)
  have d: "dated (featured specSite (js ''listing 1''))"
    unfolding f by (simp add: dated_def page_defs)
  have l: "loadListing specSite root 1 emptyWorld = (js ''listing 1'', afterListing)"
    unfolding specSite_def by (rule example_loadListing)
  have a: "afterCutoff specSite boyKilled" "afterCutoff specSite councilMeeting"
    "\<not> afterCutoff specSite childShot" "\<not> afterCutoff specSite villageAttack"
    unfolding specSite_def by (rule example_afterCutoff)+
  have h: "hasPastCutoff specSite (featured specSite (js ''listing 1''))"
    unfolding f by (simp add: hasPastCutoff_def a)
  have t: "takeWhile (afterCutoff specSite) (featured specSite (js ''listing 1'')) = [boyKilled, councilMeeting]"
    "\<forall>el\<in>set (dropWhile (afterCutoff specSite) (featured specSite (js ''listing 1''))). \<not> afterCutoff specSite el"
    unfolding f by (simp_all add: a)
  have e: "\<not> done_flag emptyWorld" "pagesStarted emptyWorld = []" "js ''listing 1'' \<noteq> []"
    by (simp_all add: emptyWorld_def pagesStarted_def js_def)
  note T = stop_rule_by_date [OF d, of afterListing emptyWorld 1 3 root "[]"]
  from T have g: "getDciLinksFromLanding specSite (js ''listing 1'') afterListing
      = (Inr (retained specSite (featured specSite (js ''listing 1''))), afterListing\<lparr>done_flag := True\<rparr>)"
    using h by simp
  from T t(2) have r: "retained specSite (featured specSite (js ''listing 1''))
      = map (\<lambda>el. candidate el (summaryDate el)) (takeWhile (afterCutoff specSite) (featured specSite (js ''listing 1'')))"
    by blast
  from T h e(1,3) l have s: "pagesStarted (snd (getArticlesRecursively specSite 1 [] root 3 emptyWorld)) = pagesStarted emptyWorld @ [1]
      \<and> done_flag (snd (getArticlesRecursively specSite 1 [] root 3 emptyWorld))"
    by simp
  have r': "retained specSite (featured specSite (js ''listing 1''))
      = map (\<lambda>el. candidate el (summaryDate el)) [boyKilled, councilMeeting]"
    using r t(1) by simp
  have "fst (getDciLinksFromLanding specSite (js ''listing 1'') afterListing)
       = Inr [candidate boyKilled (js ''January 05, 2024''),
              candidate councilMeeting (js ''January 03, 2024'')]"
    using g r' by (simp add: example_summaryDate)
  moreover have "done_flag (snd (getDciLinksFromLanding specSite (js ''listing 1'') afterListing))"
    using g by simp
  ultimately show ?thesis using d f r' s e(2) by simp
qed

section \<open>A date that cannot be parsed\<close>






section \<open>The keyword filter\<close>

lemma reduce_no_keywords: "reduce (storeStep rt []) links acc w = (Inr acc, w)"
  by (induction links) (simp_all add: storeStep_def keywordMatch_def split: option.splits)

text \<open>
  Claim C5, as stated, fails. With an empty list of keywords the headline
  \<open>Boy killed in strike\<close> does not match, and its summary is skipped.
\<close>

theorem empty_keywords_match_nothing:
  "\<not> keywordMatch specSite [] (js ''Boy killed in strike'')
   \<and> storeStep specSite [] [] (candidate boyKilled (js ''January 05, 2024'')) emptyWorld = (Inr [], emptyWorld)"
  by (simp add: keywordMatch_def storeStep_def split: option.splits)

text \<open>
  Claim C5, amended. The list of keywords of the program is not empty. A headline
  matches when its lower-case form contains one of the keywords; with an empty list no
  headline matches, and every summary is skipped: nothing is fetched, stored or
  returned.
\<close>

theorem keyword_rule:
  "keywordList \<noteq> []
   \<and> (keywordMatch rt ws h \<longleftrightarrow> (\<exists>word\<in>set ws. str_includes (toLowerCase rt h) word))
   \<and> \<not> keywordMatch rt [] h
   \<and> reduce (storeStep rt []) links acc w = (Inr acc, w)"
  by (simp add: keywordList_def keywordMatch_def list_ex_iff reduce_no_keywords)

theorem keyword_rule_witness:
  "keywordMatch specSite keywordList (js ''Boy killed in strike'')
   \<and> \<not> keywordMatch specSite keywordList (js ''Council meeting schedule'')"
proof -
  have "keywordMatch specSite keywordList (js ''Boy killed in strike'')"
    "\<not> keywordMatch specSite keywordList (js ''Council meeting schedule'')"
    unfolding specSite_def by (rule example_keywordMatch)+
  with keyword_rule [of specSite keywordList "js ''Boy killed in strike''" "[]" "[]" emptyWorld]
  show ?thesis by simp
qed

section \<open>A failed extraction is cached\<close>



section \<open>Two summaries with one headline\<close>

text \<open>
  Claim C9, as stated, fails. Two summaries of January 2024 have the same headline and
  different links. After both have been processed, the record and the page under their
  common key are those of the first, and the second article is returned with the
  victims of the first: the second write never happened.
\<close>

theorem first_record_kept:
  "link firstCandidate \<noteq> link secondCandidate
   \<and> headline firstCandidate = headline secondCandidate
   \<and> fst (reduce (storeStep specSite keywordList) [firstCandidate, secondCandidate] [] emptyWorld)
       = Inr [firstArticle specSite,
              mkArticle secondCandidate firstKey (victims (firstArticle specSite))]
   \<and> metaFiles (snd (reduce (storeStep specSite keywordList) [firstCandidate, secondCandidate] [] emptyWorld))
        firstKey = Some (firstArticle specSite)
   \<and> link (firstArticle specSite) = firstLink
   \<and> htmlFiles (snd (reduce (storeStep specSite keywordList) [firstCandidate, secondCandidate] [] emptyWorld))
        firstKey = Some (js ''text of '' @ firstLink)"
proof -
  let ?h = "js ''Boy killed in strike''"
  have k1: "cacheKey specSite ?h firstCandidate = firstKey"
    and k2: "cacheKey specSite ?h secondCandidate = firstKey"
    unfolding specSite_def by (rule example_firstCandidate example_secondCandidate)+
  have m: "keywordMatch specSite keywordList ?h"
    unfolding specSite_def by (rule example_keywordMatch)
  have c: "cachedVictims emptyWorld (cacheKey specSite ?h firstCandidate) = None"
    by (simp add: cachedVictims_def emptyWorld_def)
  have pt: "pageText specSite (DetailPage l) = js ''text of '' @ l" for l
    unfolding specSite_def by (rule example_pageText)
  have t: "truthy (victims (firstArticle specSite))"
    by (simp add: firstArticle_def mkArticle_def specSite_def example_extract)
  define w1 where "w1 = snd (storeStep specSite keywordList [] firstCandidate emptyWorld)"
  have s1: "storeStep specSite keywordList [] firstCandidate emptyWorld = (Inr [firstArticle specSite], w1)"
    and m1: "metaFiles w1 firstKey = Some (firstArticle specSite)"
    and h1: "htmlFiles w1 firstKey = Some (js ''text of '' @ firstLink)"
    unfolding w1_def storeStep_miss [OF example_firstCandidate(1) m c]
    by (simp_all add: k1 example_firstCandidate(2) pt firstArticle_def)
  have s2: "storeStep specSite keywordList [firstArticle specSite] secondCandidate w1
      = (Inr ([firstArticle specSite] @ [mkArticle secondCandidate firstKey (victims (firstArticle specSite))]), w1)"
    using storeStep_hit [OF example_secondCandidate(1) m, of w1 "firstArticle specSite" "[firstArticle specSite]"]
      m1 t k2 by simp
  have r: "reduce (storeStep specSite keywordList) [firstCandidate, secondCandidate] [] emptyWorld
      = (Inr [firstArticle specSite, mkArticle secondCandidate firstKey (victims (firstArticle specSite))], w1)"
    by (simp add: s1 s2)
  have "link firstCandidate \<noteq> link secondCandidate"
    by (simp add: example_firstCandidate(2) example_secondCandidate(2) firstLink_def secondLink_def js_def)
  moreover have "headline firstCandidate = headline secondCandidate"
    by (simp add: example_firstCandidate(1) example_secondCandidate(1))
  moreover have "link (firstArticle specSite) = firstLink"
    by (simp add: firstArticle_def mkArticle_def example_firstCandidate(2))
  ultimately show ?thesis using r m1 h1 by simp
qed

text \<open>
  Claim C9, amended. Two candidates with the same headline whose dates give the same
  directory have the same cache key, whatever their links. Processing the second one
  does not throw and does not merge records. When the record under the key holds truthy
  victims, nothing is fetched or written: the earlier record and page stay, and the
  second article is returned with the victims of that record. Otherwise the second
  candidate is fetched and extracted, and its record and page replace what was under
  the key.
\<close>

theorem same_headline_same_record:
  assumes "headline p1 = Some h" and "headline p2 = Some h"
    and "dateDir rt (date p1) = dateDir rt (date p2)" and "keywordMatch rt ws h"
  shows "cacheKey rt h p1 = cacheKey rt h p2
     \<and> (\<forall>r. metaFiles w (cacheKey rt h p1) = Some r \<and> truthy (victims r) \<longrightarrow>
           storeStep rt ws acc p2 w = (Inr (acc @ [mkArticle p2 (cacheKey rt h p1) (victims r)]), w))
     \<and> (cachedVictims w (cacheKey rt h p1) = None \<longrightarrow>
           fst (storeStep rt ws acc p2 w)
             = Inr (acc @ [mkArticle p2 (cacheKey rt h p1) (extractVictims rt (pageText rt (DetailPage (link p2))))])
         \<and> metaFiles (snd (storeStep rt ws acc p2 w)) (cacheKey rt h p1)
             = Some (mkArticle p2 (cacheKey rt h p1) (extractVictims rt (pageText rt (DetailPage (link p2)))))
         \<and> htmlFiles (snd (storeStep rt ws acc p2 w)) (cacheKey rt h p1)
             = Some (pageText rt (DetailPage (link p2))))"
proof -
  have k: "cacheKey rt h p1 = cacheKey rt h p2" using assms(3) by (simp add: cacheKey_def)
  show ?thesis
  proof (intro conjI allI impI)
    show "cacheKey rt h p1 = cacheKey rt h p2" by (rule k)
  next
    fix r assume "metaFiles w (cacheKey rt h p1) = Some r \<and> truthy (victims r)"
    then show "storeStep rt ws acc p2 w = (Inr (acc @ [mkArticle p2 (cacheKey rt h p1) (victims r)]), w)"
      using storeStep_hit [OF assms(2,4), of w r acc] k by simp
  next
    assume m: "cachedVictims w (cacheKey rt h p1) = None"
    then have m2: "cachedVictims w (cacheKey rt h p2) = None" using k by simp
    note s = storeStep_miss [OF assms(2,4) m2, of acc]
    show "fst (storeStep rt ws acc p2 w)
             = Inr (acc @ [mkArticle p2 (cacheKey rt h p1) (extractVictims rt (pageText rt (DetailPage (link p2))))])"
      using s k by simp
    show "metaFiles (snd (storeStep rt ws acc p2 w)) (cacheKey rt h p1)
             = Some (mkArticle p2 (cacheKey rt h p1) (extractVictims rt (pageText rt (DetailPage (link p2)))))"
      using s k by simp
    show "htmlFiles (snd (storeStep rt ws acc p2 w)) (cacheKey rt h p1)
             = Some (pageText rt (DetailPage (link p2)))"
      using s k by simp
  qed
qed

theorem same_headline_same_record_witness:
  "headline firstCandidate = Some (js ''Boy killed in strike'')
   \<and> headline secondCandidate = Some (js ''Boy killed in strike'')
   \<and> keywordMatch specSite keywordList (js ''Boy killed in strike'')
   \<and> cacheKey specSite (js ''Boy killed in strike'') firstCandidate
       = cacheKey specSite (js ''Boy killed in strike'') secondCandidate
   \<and> cachedVictims emptyWorld firstKey = None
   \<and> htmlFiles (snd (storeStep specSite keywordList [] secondCandidate emptyWorld)) firstKey
       = Some (js ''text of '' @ secondLink)
   \<and> truthy (victims (firstArticle specSite))
   \<and> storeStep specSite keywordList [] secondCandidate
         (emptyWorld\<lparr>metaFiles := [firstKey \<mapsto> firstArticle specSite]\<rparr>)
       = (Inr [mkArticle secondCandidate firstKey (victims (firstArticle specSite))],
          emptyWorld\<lparr>metaFiles := [firstKey \<mapsto> firstArticle specSite]\<rparr>)"
proof -
  let ?h = "js ''Boy killed in strike''"
  let ?w = "emptyWorld\<lparr>metaFiles := [firstKey \<mapsto> firstArticle specSite]\<rparr>"
  have k1: "cacheKey specSite ?h firstCandidate = firstKey"
    unfolding specSite_def by (rule example_firstCandidate)
  have d: "dateDir specSite (date firstCandidate) = dateDir specSite (date secondCandidate)"
    by (simp add: firstCandidate_def secondCandidate_def candidate_date specSite_def example_dir)
  have m: "keywordMatch specSite keywordList ?h"
    unfolding specSite_def by (rule example_keywordMatch)
  have c: "cachedVictims emptyWorld firstKey = None"
    by (simp add: cachedVictims_def emptyWorld_def)
  have pt: "pageText specSite (DetailPage l) = js ''text of '' @ l" for l
    unfolding specSite_def by (rule example_pageText)
  have t: "truthy (victims (firstArticle specSite))"
    by (simp add: firstArticle_def mkArticle_def specSite_def example_extract)
  note T = same_headline_same_record [OF example_firstCandidate(1) example_secondCandidate(1) d m]
  from T [of emptyWorld "[]"] have k: "cacheKey specSite ?h firstCandidate = cacheKey specSite ?h secondCandidate"
    by blast
  from T [of emptyWorld "[]"] c k1
  have "htmlFiles (snd (storeStep specSite keywordList [] secondCandidate emptyWorld)) firstKey
      = Some (pageText specSite (DetailPage (link secondCandidate)))" by simp
  then have a: "htmlFiles (snd (storeStep specSite keywordList [] secondCandidate emptyWorld)) firstKey
      = Some (js ''text of '' @ secondLink)"
    by (simp only: pt example_secondCandidate(2))
  have "metaFiles ?w (cacheKey specSite ?h firstCandidate) = Some (firstArticle specSite)
      \<and> truthy (victims (firstArticle specSite))"
    using t k1 by simp
  with T [of ?w "[]"] k1
  have b: "storeStep specSite keywordList [] secondCandidate ?w
      = (Inr [mkArticle secondCandidate firstKey (victims (firstArticle specSite))], ?w)"
    by auto
  from a b c k m t show ?thesis by (simp add: example_firstCandidate(1) example_secondCandidate(1))
qed

section \<open>The driver terminates\<close>



section \<open>A second run against the cache of the first\<close>

text \<open>
  Claim C2, as stated, fails. On the example site with a failing extraction service the
  first run caches the article with victims \<open>null\<close>; the second run finds the record
  without victims and fetches the detail page again.
\<close>

theorem failed_extraction_refetched:
  "fst (runPipeline failingSite root 3 emptyWorld) = Inr [mkArticle firstCandidate firstKey (Some JNull)]
   \<and> detailFetches (snd (runPipeline failingSite root 3 (snd (runPipeline failingSite root 3 emptyWorld))))
       = [firstLink]"
proof -
  have v: "extractVictims failingSite html = Some JNull" for html
    by (rule extractVictims_fails)
       (simp add: extractionFails_def failingSite_def exampleRuntime_def failingService_def)
  have a: "firstArticle failingSite = mkArticle firstCandidate firstKey (Some JNull)"
    by (simp add: firstArticle_def v)
  have r1: "runPipeline failingSite root 3 emptyWorld = (Inr [firstArticle failingSite], afterFirstRun failingSite)"
    unfolding failingSite_def by (rule example_first_run)
  define t where "t = freshProcess (afterFirstRun failingSite)"
  define t2 where "t2 = t\<lparr>trace := [PageStart 1], done_flag := True\<rparr>"
  have l: "loadListing failingSite root 1 t = (js ''listing 1'', t\<lparr>trace := [PageStart 1]\<rparr>)"
    unfolding t_def by (rule example_second_listing)
  have c: "cachedVictims t2 firstKey = None"
    by (simp add: t2_def t_def cachedVictims_def freshProcess_def afterFirstRun_def writeAll_def
          persistPage_def a mkArticle_def)
  have f: "featured failingSite (js ''listing 1'') = examplePage"
    unfolding failingSite_def by (rule example_featured)
  have r: "retained failingSite examplePage = [firstCandidate, candidate councilMeeting (js ''January 03, 2024'')]"
    unfolding failingSite_def by (rule example_retained)
  define w3 where "w3 = snd (reduce (storeStep failingSite keywordList)
        [firstCandidate, candidate councilMeeting (js ''January 03, 2024'')] [] t2)"
  note m = example_page_miss [OF c, of "exampleListing examplePage" failingService, folded failingSite_def]
  from m have s0: "reduce (storeStep failingSite keywordList)
        [firstCandidate, candidate councilMeeting (js ''January 03, 2024'')] [] t2
      = (Inr [firstArticle failingSite], w3)"
    by (simp add: w3_def firstArticle_def)
  from m have t3: "trace w3 = [PageStart 1, Fetch (DetailPage firstLink)]"
    by (simp add: w3_def t2_def)
  have s: "reduce (storeStep failingSite keywordList)
        (retained failingSite (featured failingSite (js ''listing 1''))) [] (t\<lparr>trace := [PageStart 1]\<rparr>\<lparr>done_flag := True\<rparr>)
      = (Inr [firstArticle failingSite], w3)"
    using s0 by (simp add: f r t2_def)
  have d: "dated (featured failingSite (js ''listing 1''))"
    "hasPastCutoff failingSite (featured failingSite (js ''listing 1''))"
    unfolding failingSite_def by (rule example_page_facts)+
  have "getArticlesRecursively failingSite 1 [] root 3 t
      = (Inr [firstArticle failingSite],
         writeAll root [firstArticle failingSite] (persistPage root 1 (js ''listing 1'') [firstArticle failingSite] w3))"
    by (rule one_page_run [OF _ _ l _ d s]) (simp_all add: t_def freshProcess_def js_def)
  then have "detailFetches (snd (runPipeline failingSite root 3 (afterFirstRun failingSite))) = [firstLink]"
    by (simp add: runPipeline_def detailFetches_def writeAll_def persistPage_def t3 t_def)
  with r1 a show ?thesis by simp
qed

text \<open>
  Claim C2, amended. Let a first run, from any state of the files, return without an
  exception, and let every article it returns carry truthy victims. Then a second run
  on the same runtime, from the files the first run left, returns the same articles,
  requests no detail page from the network, and leaves every file (cache records,
  cached pages, listing files, page files, aggregate) as the first run left it.
\<close>

theorem second_run_replays:
  assumes "runPipeline rt source stop w = (Inr out, w1)"
    and "\<forall>a\<in>set out. truthy (victims a)"
  shows "fst (runPipeline rt source stop w1) = Inr out
         \<and> detailFetches (snd (runPipeline rt source stop w1)) = []
         \<and> sameFiles (snd (runPipeline rt source stop w1)) w1"
proof -
  have "done_flag (freshProcess w1) = done_flag (freshProcess w)" by (simp add: freshProcess_def)
  moreover have "sameFiles (freshProcess w1) w1" by (simp add: sameFiles_def freshProcess_def)
  ultimately obtain t' where
    "getArticlesRecursively rt 1 [] source stop (freshProcess w1) = (Inr out, t')"
    "sameFiles t' w1" "detailFetches t' = detailFetches (freshProcess w1)"
    using driver_replay [OF assms(1) [unfolded runPipeline_def] assms(2)] by blast
  then show ?thesis by (simp add: runPipeline_def detailFetches_def freshProcess_def)
qed

theorem second_run_replays_witness:
  "runPipeline specSite root 3 emptyWorld = (Inr [firstArticle specSite], afterFirstRun specSite)
   \<and> truthy (victims (firstArticle specSite))
   \<and> fst (runPipeline specSite root 3 (afterFirstRun specSite)) = Inr [firstArticle specSite]
   \<and> detailFetches (snd (runPipeline specSite root 3 (afterFirstRun specSite))) = []"
proof -
  have r1: "runPipeline specSite root 3 emptyWorld = (Inr [firstArticle specSite], afterFirstRun specSite)"
    unfolding specSite_def by (rule example_first_run)
  have t: "\<forall>a\<in>set [firstArticle specSite]. truthy (victims a)"
    by (simp add: firstArticle_def mkArticle_def specSite_def example_extract)
  from second_run_replays [OF r1 t] r1 t show ?thesis by simp
qed

end
